theory Spec2Isabelle
  imports Complex_Main "HOL-Library.Word"
begin

section \<open>The MAPINFO data model\<close>

text \<open>
  The MAPINFO text is a NUL terminated C string. It is modelled by the list of the
  characters before the terminator; a \<open>const char*\<close> into it is the offset of the
  character it points at (an \<open>int\<close>, since the code subtracts from such pointers).
  Reading at the offset of the terminator gives the NUL character, reading anywhere else
  outside the text is an out of bounds read.
\<close>

definition NUL :: char where
  "NUL = char_of (0::nat)"

definition read_char :: "string \<Rightarrow> int \<Rightarrow> char option" where
  "read_char s i =
     (if 0 \<le> i \<and> i < int (length s) then Some (s ! nat i)
      else if i = int (length s) then Some NUL
      else None)"

text \<open>Reading \<open>n\<close> characters starting at offset \<open>p\<close>; nothing is read when \<open>n = 0\<close>.\<close>

fun read_chars :: "string \<Rightarrow> int \<Rightarrow> nat \<Rightarrow> string option" where
  "read_chars s p 0 = Some []"
| "read_chars s p (Suc n) =
     (case read_char s p of
        None \<Rightarrow> None
      | Some c \<Rightarrow> (case read_chars s (p + 1) n of None \<Rightarrow> None | Some cs \<Rightarrow> Some (c # cs)))"

text \<open>\<open>struct TextLoc\<close>: zero based line and column, and the pointer into the text.\<close>

record TextLoc =
  line :: "32 word"
  column :: "32 word"
  pStr :: int

text \<open>\<open>enum class TokenType\<close>. \<open>True\<close> and \<open>False\<close> are HOL constants, so the two
  boolean literals carry a suffix.\<close>

datatype TokenType =
    Null
  | Identifier
  | String
  | Number
  | True_tok
  | False_tok
  | Equals
  | OpenBlock
  | CloseBlock
  | NextValue

text \<open>\<open>struct Token\<close>. The fields \<open>begin\<close>, \<open>end\<close> and \<open>type\<close> are keywords of the
  theory language and are prefixed. The \<open>float\<close> field is modelled by the real number
  that the (finite) float denotes.\<close>

record Token =
  tok_begin :: TextLoc
  tok_end :: TextLoc
  tok_type :: TokenType
  tok_number :: real

text \<open>A \<open>std::string_view\<close>: a pointer and a length.\<close>

record string_view =
  sv_data :: int
  sv_size :: nat

text \<open>Outcomes of a call: a returned value, the fatal error raised by \<open>MapInfo::error\<close>
  (with the line and the column as they are printed, and the message), undefined behaviour
  (a null or dangling pointer dereference, an out of bounds read, a float to integer
  conversion out of range), or a loop that has not finished within the given number of
  iterations.\<close>

datatype 'a outcome =
    Returns 'a
  | FatalError "32 word" "32 word" string
  | Fault
  | OutOfFuel

fun obind :: "'a outcome \<Rightarrow> ('a \<Rightarrow> 'b outcome) \<Rightarrow> 'b outcome" where
  "obind (Returns x) f = f x"
| "obind (FatalError l c m) f = FatalError l c m"
| "obind Fault f = Fault"
| "obind OutOfFuel f = OutOfFuel"

text \<open>\<open>MapInfo::error(loc, fmt)\<close> is declared \<open>noreturn\<close>: a call ends the
  computation with the outcome \<open>FatalError\<close>, which records what is handed to
  \<open>FatalErrors::raiseF\<close> (a function outside these sources): the numbers printed in the
  first line of the message, \<open>loc.line + 1u\<close> and \<open>loc.column + 1u\<close>, and the message of
  its second line.\<close>

definition error :: "TextLoc \<Rightarrow> string \<Rightarrow> 'a outcome" where
  "error loc msg = FatalError (line loc + 1) (column loc + 1) msg"

section \<open>Token\<close>

text \<open>\<open>Token::size\<close> (suffixed: \<open>size\<close> is a HOL constant): the pointer difference,
  cast to \<open>int32_t\<close>.\<close>

definition size_tok :: "Token \<Rightarrow> 32 word" where
  "size_tok t = word_of_int (pStr (tok_end t) - pStr (tok_begin t))"

definition textBegin :: "Token \<Rightarrow> int" where
  "textBegin t = (if tok_type t = String then pStr (tok_begin t) + 1 else pStr (tok_begin t))"

definition textEnd :: "Token \<Rightarrow> int" where
  "textEnd t = (if tok_type t = String then pStr (tok_end t) - 1 else pStr (tok_end t))"

text \<open>\<open>std::toupper\<close> in the C locale.\<close>

definition toupper :: "char \<Rightarrow> char" where
  "toupper c =
     (if 97 \<le> (of_char c :: nat) \<and> (of_char c :: nat) \<le> 122
      then char_of ((of_char c :: nat) - 32) else c)"

text \<open>The final \<open>return (*pOther == 0)\<close> of \<open>textEqualsIgnoreCase\<close>.\<close>

definition otherAtEnd :: "string \<Rightarrow> int \<Rightarrow> bool outcome" where
  "otherAtEnd other pOther =
     (case read_char other pOther of None \<Rightarrow> Fault | Some c \<Rightarrow> Returns (c = NUL))"

text \<open>The \<open>while (pThis < pThisEnd)\<close> loop of \<open>textEqualsIgnoreCase\<close>, with the final
  test. \<open>src\<close> is the MAPINFO text the token points into, \<open>other\<close> the C string compared
  with, \<open>pOther\<close> the offset reached in it.\<close>

function textEquals_loop :: "string \<Rightarrow> int \<Rightarrow> int \<Rightarrow> string \<Rightarrow> int \<Rightarrow> bool outcome" where
  "textEquals_loop src pThis pThisEnd other pOther =
     (if pThis < pThisEnd then
        (case read_char src pThis of
           None \<Rightarrow> Fault
         | Some x \<Rightarrow>
             (case read_char other pOther of
                None \<Rightarrow> Fault
              | Some y \<Rightarrow>
                  (if toupper x \<noteq> toupper y then Returns False
                   else if toupper x = NUL then otherAtEnd other (pOther + 1)
                   else textEquals_loop src (pThis + 1) pThisEnd other (pOther + 1))))
      else otherAtEnd other pOther)"
  by pat_completeness auto
termination
  by (relation "measure (\<lambda>(src, pThis, pThisEnd, other, pOther). nat (pThisEnd - pThis))") auto

declare textEquals_loop.simps [simp del]

definition textEqualsIgnoreCase :: "string \<Rightarrow> Token \<Rightarrow> string \<Rightarrow> bool outcome" where
  "textEqualsIgnoreCase src t other = textEquals_loop src (textBegin t) (textEnd t) other 0"

text \<open>\<open>Token::text\<close> (\<open>text\<close> is a keyword of the theory language).\<close>

definition tok_text :: "Token \<Rightarrow> string_view" where
  "tok_text t =
     (let pBeg = textBegin t; pEnd = textEnd t
      in if pBeg < pEnd then \<lparr>sv_data = pBeg, sv_size = nat (pEnd - pBeg)\<rparr>
         else \<lparr>sv_data = pBeg, sv_size = 0\<rparr>)"


section \<open>LinkedToken\<close>

text \<open>A \<open>LinkedToken*\<close> is an address or \<open>nullptr\<close>; the store maps the addresses of the
  live linked tokens to their contents.\<close>

type_synonym addr = nat
type_synonym ptr = "addr option"

record LinkedToken =
  token :: Token
  pNext :: ptr
  pNextData :: ptr

type_synonym heap = "addr \<Rightarrow> LinkedToken option"

text \<open>Dereferencing: undefined behaviour on \<open>nullptr\<close> and on an address that holds no
  linked token.\<close>

definition deref :: "heap \<Rightarrow> ptr \<Rightarrow> LinkedToken outcome" where
  "deref h p =
     (case p of
        None \<Rightarrow> Fault
      | Some a \<Rightarrow> (case h a of None \<Rightarrow> Fault | Some lt \<Rightarrow> Returns lt))"

text \<open>The loop of \<open>numTokensAhead\<close>; the first argument bounds the number of times the
  loop condition is tested. The \<open>int32_t\<close> counter wraps around.\<close>

fun numTokensAhead_loop :: "nat \<Rightarrow> heap \<Rightarrow> ptr \<Rightarrow> 32 word \<Rightarrow> 32 word outcome" where
  "numTokensAhead_loop 0 h pToken count = OutOfFuel"
| "numTokensAhead_loop (Suc n) h None count = Returns count"
| "numTokensAhead_loop (Suc n) h (Some a) count =
     (case h a of
        None \<Rightarrow> Fault
      | Some lt \<Rightarrow> numTokensAhead_loop n h (pNext lt) (count + 1))"

definition numTokensAhead :: "nat \<Rightarrow> heap \<Rightarrow> LinkedToken \<Rightarrow> 32 word outcome" where
  "numTokensAhead n h this = numTokensAhead_loop n h (pNext this) 0"

fun numDataTokensAhead_loop :: "nat \<Rightarrow> heap \<Rightarrow> ptr \<Rightarrow> 32 word \<Rightarrow> 32 word outcome" where
  "numDataTokensAhead_loop 0 h pToken count = OutOfFuel"
| "numDataTokensAhead_loop (Suc n) h None count = Returns count"
| "numDataTokensAhead_loop (Suc n) h (Some a) count =
     (case h a of
        None \<Rightarrow> Fault
      | Some lt \<Rightarrow> numDataTokensAhead_loop n h (pNextData lt) (count + 1))"

definition numDataTokensAhead :: "nat \<Rightarrow> heap \<Rightarrow> LinkedToken \<Rightarrow> 32 word outcome" where
  "numDataTokensAhead n h this = numDataTokensAhead_loop n h (pNextData this) 0"

section \<open>Conversions between \<open>int32_t\<close> and \<open>float\<close>\<close>

text \<open>The number of low bits of a natural number that a 24 bit significand cannot hold.\<close>

function excess_bits :: "nat \<Rightarrow> nat" where
  "excess_bits a = (if a < 2 ^ 24 then 0 else Suc (excess_bits (a div 2)))"
  by pat_completeness auto
termination
  by (relation "measure (\<lambda>a. a)") auto

declare excess_bits.simps [simp del]

text \<open>\<open>(float) x\<close> for an integer \<open>x\<close>: the nearest single precision number, ties to the
  even significand.\<close>

definition float_of_int :: "int \<Rightarrow> real" where
  "float_of_int x =
     (let a = nat \<bar>x\<bar>;
          e = excess_bits a;
          q = a div 2 ^ e;
          r = a mod 2 ^ e;
          q' = (if 2 ^ e < 2 * r \<or> (2 * r = 2 ^ e \<and> odd q) then q + 1 else q)
      in of_int (sgn x * int (q' * 2 ^ e)))"

definition float_of_int32 :: "32 word \<Rightarrow> real" where
  "float_of_int32 x = float_of_int (sint x)"

text \<open>\<open>(int32_t) f\<close>: truncation towards zero, undefined when the result does not fit.\<close>

definition int32_of_float :: "real \<Rightarrow> 32 word outcome" where
  "int32_of_float f =
     (let z = (if 0 \<le> f then \<lfloor>f\<rfloor> else \<lceil>f\<rceil>)
      in if - (2 ^ 31) \<le> z \<and> z < 2 ^ 31 then Returns (word_of_int z) else Fault)"

section \<open>Block\<close>

record Block =
  pType :: ptr
  pHeader :: ptr
  pValues :: ptr

definition invalid_header_msg :: string where
  "invalid_header_msg =
     ''MAPINFO block has an invalid header! See PsyDoom's MAPINFO docs for the expected format.''"

definition getHeaderTokenCount :: "nat \<Rightarrow> heap \<Rightarrow> Block \<Rightarrow> 32 word outcome" where
  "getHeaderTokenCount n h blk =
     (case pHeader blk of
        None \<Rightarrow> Returns 0
      | Some a \<Rightarrow>
          obind (deref h (Some a)) (\<lambda>lt.
          obind (numTokensAhead n h lt) (\<lambda>c. Returns (1 + c))))"

text \<open>The loop of \<open>getHeaderTokenWithIndex\<close>; the \<open>uint32_t\<close> counter \<open>i\<close> wraps around.\<close>

fun getHeaderTokenWithIndex_loop :: "nat \<Rightarrow> heap \<Rightarrow> ptr \<Rightarrow> 32 word \<Rightarrow> 32 word \<Rightarrow> ptr outcome" where
  "getHeaderTokenWithIndex_loop 0 h pCurToken i index = OutOfFuel"
| "getHeaderTokenWithIndex_loop (Suc n) h None i index = Returns None"
| "getHeaderTokenWithIndex_loop (Suc n) h (Some a) i index =
     (if i = index then Returns (Some a)
      else (case h a of
              None \<Rightarrow> Fault
            | Some lt \<Rightarrow> getHeaderTokenWithIndex_loop n h (pNext lt) (i + 1) index))"

definition getHeaderTokenWithIndex :: "nat \<Rightarrow> heap \<Rightarrow> Block \<Rightarrow> 32 word \<Rightarrow> ptr outcome" where
  "getHeaderTokenWithIndex n h blk index = getHeaderTokenWithIndex_loop n h (pHeader blk) 0 index"

text \<open>The error raised by the header accessors, at \<open>pType->token.end\<close>.\<close>

definition header_error :: "heap \<Rightarrow> Block \<Rightarrow> 'a outcome" where
  "header_error h blk =
     obind (deref h (pType blk)) (\<lambda>ty. error (tok_end (token ty)) invalid_header_msg)"

definition ensureMinHeaderTokenCount :: "nat \<Rightarrow> heap \<Rightarrow> Block \<Rightarrow> 32 word \<Rightarrow> unit outcome" where
  "ensureMinHeaderTokenCount n h blk count =
     obind (getHeaderTokenCount n h blk) (\<lambda>c.
       if sint c < sint count then header_error h blk else Returns ())"

text \<open>The \<open>int32_t\<close> index is converted to \<open>uint32_t\<close>, which keeps its bits.\<close>

definition getRequiredHeaderToken :: "nat \<Rightarrow> heap \<Rightarrow> Block \<Rightarrow> 32 word \<Rightarrow> LinkedToken outcome" where
  "getRequiredHeaderToken n h blk index =
     obind (getHeaderTokenWithIndex n h blk index) (\<lambda>pToken.
       case pToken of
         None \<Rightarrow> header_error h blk
       | Some a \<Rightarrow> deref h (Some a))"

definition getRequiredHeaderNumber :: "nat \<Rightarrow> heap \<Rightarrow> Block \<Rightarrow> 32 word \<Rightarrow> real outcome" where
  "getRequiredHeaderNumber n h blk index =
     obind (getRequiredHeaderToken n h blk index) (\<lambda>lt.
       let tokenType = tok_type (token lt)
       in if tokenType = Number then Returns (tok_number (token lt))
          else if tokenType = True_tok then Returns 1
          else if tokenType = False_tok then Returns 0
          else header_error h blk)"

definition getRequiredHeaderInt :: "nat \<Rightarrow> heap \<Rightarrow> Block \<Rightarrow> 32 word \<Rightarrow> 32 word outcome" where
  "getRequiredHeaderInt n h blk index =
     obind (getRequiredHeaderNumber n h blk index) int32_of_float"

text \<open>\<open>SmallStrT(text.data(), (uint32_t) text.size())\<close>: the small string types are not
  part of these sources, so their constructor from the characters read is the parameter
  \<open>mk\<close>. The length is truncated to 32 bits.\<close>

definition small_string_of_view :: "(string \<Rightarrow> 's) \<Rightarrow> string \<Rightarrow> string_view \<Rightarrow> 's outcome" where
  "small_string_of_view mk src v =
     (case read_chars src (sv_data v) (sv_size v mod 2 ^ 32) of
        None \<Rightarrow> Fault
      | Some cs \<Rightarrow> Returns (mk cs))"

definition getRequiredHeaderSmallString ::
  "(string \<Rightarrow> 's) \<Rightarrow> nat \<Rightarrow> heap \<Rightarrow> string \<Rightarrow> Block \<Rightarrow> 32 word \<Rightarrow> 's outcome" where
  "getRequiredHeaderSmallString mk n h src blk index =
     obind (getRequiredHeaderToken n h blk index) (\<lambda>lt.
       small_string_of_view mk src (tok_text (token lt)))"

text \<open>The loop of \<open>getValue\<close>.\<close>

fun getValue_loop :: "nat \<Rightarrow> heap \<Rightarrow> string \<Rightarrow> ptr \<Rightarrow> string \<Rightarrow> ptr outcome" where
  "getValue_loop 0 h src pCurToken name = OutOfFuel"
| "getValue_loop (Suc n) h src None name = Returns None"
| "getValue_loop (Suc n) h src (Some a) name =
     (case h a of
        None \<Rightarrow> Fault
      | Some lt \<Rightarrow>
          obind (textEqualsIgnoreCase src (token lt) name) (\<lambda>eq.
            if eq then Returns (Some a) else getValue_loop n h src (pNext lt) name))"

definition getValue :: "nat \<Rightarrow> heap \<Rightarrow> string \<Rightarrow> Block \<Rightarrow> string \<Rightarrow> ptr outcome" where
  "getValue n h src blk name = getValue_loop n h src (pValues blk) name"

text \<open>\<open>(pToken) ? pToken->pNextData : nullptr\<close>\<close>

definition dataTokenOf :: "heap \<Rightarrow> ptr \<Rightarrow> ptr outcome" where
  "dataTokenOf h pToken =
     (case pToken of
        None \<Rightarrow> Returns None
      | Some a \<Rightarrow> obind (deref h (Some a)) (\<lambda>lt. Returns (pNextData lt)))"

definition getSingleNumberValue ::
  "nat \<Rightarrow> heap \<Rightarrow> string \<Rightarrow> Block \<Rightarrow> string \<Rightarrow> real \<Rightarrow> real outcome" where
  "getSingleNumberValue n h src blk name defaultValue =
     obind (getValue n h src blk name) (\<lambda>pToken.
     obind (dataTokenOf h pToken) (\<lambda>pDataToken.
       case pDataToken of
         Some d \<Rightarrow>
           obind (deref h (Some d)) (\<lambda>dt.
             let dataType = tok_type (token dt)
             in if dataType = Number then Returns (tok_number (token dt))
                else if dataType = True_tok then Returns 1
                else if dataType = False_tok then Returns 0
                else Returns defaultValue)
       | None \<Rightarrow> Returns (if pToken \<noteq> None then 1 else defaultValue)))"

definition getSingleIntValue ::
  "nat \<Rightarrow> heap \<Rightarrow> string \<Rightarrow> Block \<Rightarrow> string \<Rightarrow> 32 word \<Rightarrow> 32 word outcome" where
  "getSingleIntValue n h src blk name defaultValue =
     obind (getSingleNumberValue n h src blk name (float_of_int32 defaultValue)) int32_of_float"

definition getSingleSmallStringValue ::
  "(string \<Rightarrow> 's) \<Rightarrow> nat \<Rightarrow> heap \<Rightarrow> string \<Rightarrow> Block \<Rightarrow> string \<Rightarrow> 's \<Rightarrow> 's outcome" where
  "getSingleSmallStringValue mk n h src blk name defaultValue =
     obind (getValue n h src blk name) (\<lambda>pToken.
     obind (dataTokenOf h pToken) (\<lambda>pDataToken.
       case pDataToken of
         Some d \<Rightarrow>
           obind (deref h (Some d)) (\<lambda>dt. small_string_of_view mk src (tok_text (token dt)))
       | None \<Rightarrow> Returns defaultValue))"

section \<open>Notions used to state the properties\<close>

text \<open>The characters a string view denotes in the text (none when it reaches outside).\<close>

definition view_chars :: "string \<Rightarrow> string_view \<Rightarrow> string option" where
  "view_chars src v = read_chars src (sv_data v) (sv_size v)"

text \<open>The length of the stored span of a token (negative when the span is inverted),
  and the raw lexed span: the characters from \<open>begin\<close> up to \<open>end\<close>.\<close>

definition span_length :: "Token \<Rightarrow> int" where
  "span_length t = pStr (tok_end t) - pStr (tok_begin t)"

definition lexed_span :: "string \<Rightarrow> Token \<Rightarrow> string" where
  "lexed_span src t = take (nat (span_length t)) (drop (nat (pStr (tok_begin t))) src)"

text \<open>A token lies in the text: its span is not inverted and stays before the
  terminator.\<close>

definition token_in_text :: "string \<Rightarrow> Token \<Rightarrow> bool" where
  "token_in_text src t =
     (0 \<le> pStr (tok_begin t) \<and> pStr (tok_begin t) \<le> pStr (tok_end t)
      \<and> pStr (tok_end t) \<le> int (length src))"

text \<open>ASCII case folding, and equality of two texts up to it.\<close>

definition ascii_fold :: "char \<Rightarrow> char" where
  "ascii_fold c =
     (if 65 \<le> (of_char c :: nat) \<and> (of_char c :: nat) \<le> 90
      then char_of ((of_char c :: nat) + 32) else c)"

definition equal_ignoring_ascii_case :: "string \<Rightarrow> string \<Rightarrow> bool" where
  "equal_ignoring_ascii_case a b = (map ascii_fold a = map ascii_fold b)"

text \<open>\<open>chain link h p as\<close>: following the link \<open>link\<close> (\<open>pNext\<close> or \<open>pNextData\<close>) from
  the pointer \<open>p\<close> visits exactly the live linked tokens at the addresses \<open>as\<close>, in this
  order, and then reaches the absent link. Such a chain is finite, hence acyclic.\<close>

fun chain :: "(LinkedToken \<Rightarrow> ptr) \<Rightarrow> heap \<Rightarrow> ptr \<Rightarrow> addr list \<Rightarrow> bool" where
  "chain link h p [] = (p = None)"
| "chain link h p (a # as) =
     (p = Some a \<and> (case h a of None \<Rightarrow> False | Some lt \<Rightarrow> chain link h (link lt) as))"

text \<open>The text of the token at an address, when the token is live, its text lies in the
  MAPINFO text and holds no NUL character.\<close>

definition name_at :: "string \<Rightarrow> heap \<Rightarrow> addr \<Rightarrow> string option" where
  "name_at src h a =
     (case h a of
        None \<Rightarrow> None
      | Some lt \<Rightarrow>
          (case view_chars src (tok_text (token lt)) of
             None \<Rightarrow> None
           | Some cs \<Rightarrow> if NUL \<in> set cs then None else Some cs))"

definition names_readable :: "string \<Rightarrow> heap \<Rightarrow> addr list \<Rightarrow> bool" where
  "names_readable src h as = list_all (\<lambda>a. name_at src h a \<noteq> None) as"

definition name_matches :: "string \<Rightarrow> heap \<Rightarrow> string \<Rightarrow> addr \<Rightarrow> bool" where
  "name_matches src h name a =
     (case name_at src h a of None \<Rightarrow> False | Some cs \<Rightarrow> equal_ignoring_ascii_case cs name)"

text \<open>The store in which the data chain starting at \<open>d\<close> holds only its first entry.\<close>

definition cut_data_chain :: "heap \<Rightarrow> addr \<Rightarrow> heap" where
  "cut_data_chain h d =
     (case h d of None \<Rightarrow> h | Some dt \<Rightarrow> h(d \<mapsto> dt\<lparr>pNextData := None\<rparr>))"

section \<open>An example document\<close>

text \<open>The text below, lexed on one line, with the linked tokens of its single block in an
  arena (\<open>MapInfo::tokens\<close>) whose indices serve as addresses.\<close>

definition ex_src :: string where
  \<open>ex_src = ''Map 1 "E1M1" true { Music = 5 NoIntermission SpecialAction = 3, "Open", true Sky = "SKY2" }''\<close>

definition ex_tok :: "nat \<Rightarrow> nat \<Rightarrow> TokenType \<Rightarrow> real \<Rightarrow> Token" where
  "ex_tok b e ty x =
     \<lparr>tok_begin = \<lparr>line = 0, column = of_nat b, pStr = int b\<rparr>,
      tok_end = \<lparr>line = 0, column = of_nat e, pStr = int e\<rparr>,
      tok_type = ty, tok_number = x\<rparr>"

definition ex_tokens :: "LinkedToken list" where
  "ex_tokens =
     [\<lparr>token = ex_tok 0 3 Identifier 0, pNext = None, pNextData = None\<rparr>,
      \<lparr>token = ex_tok 4 5 Number 1, pNext = Some 2, pNextData = None\<rparr>,
      \<lparr>token = ex_tok 6 12 String 0, pNext = Some 3, pNextData = None\<rparr>,
      \<lparr>token = ex_tok 13 17 True_tok 0, pNext = None, pNextData = None\<rparr>,
      \<lparr>token = ex_tok 20 25 Identifier 0, pNext = Some 6, pNextData = Some 5\<rparr>,
      \<lparr>token = ex_tok 28 29 Number 5, pNext = None, pNextData = None\<rparr>,
      \<lparr>token = ex_tok 30 44 Identifier 0, pNext = Some 7, pNextData = None\<rparr>,
      \<lparr>token = ex_tok 45 58 Identifier 0, pNext = Some 11, pNextData = Some 8\<rparr>,
      \<lparr>token = ex_tok 61 62 Number 3, pNext = None, pNextData = Some 9\<rparr>,
      \<lparr>token = ex_tok 64 70 String 0, pNext = None, pNextData = Some 10\<rparr>,
      \<lparr>token = ex_tok 72 76 True_tok 0, pNext = None, pNextData = None\<rparr>,
      \<lparr>token = ex_tok 77 80 Identifier 0, pNext = None, pNextData = Some 12\<rparr>,
      \<lparr>token = ex_tok 83 89 String 0, pNext = None, pNextData = None\<rparr>]"

definition heap_of :: "LinkedToken list \<Rightarrow> heap" where
  "heap_of arena a = (if a < length arena then Some (arena ! a) else None)"

definition ex_heap :: heap where
  "ex_heap = heap_of ex_tokens"

definition ex_block :: Block where
  "ex_block = \<lparr>pType = Some 0, pHeader = Some 1, pValues = Some 4\<rparr>"

section \<open>Properties\<close>

subsection \<open>Characters and case\<close>

lemma NUL_char: "NUL = CHR 0x00"
  by (simp add: NUL_def char_of_def)

lemma char_eq_char_of: "c = char_of (n :: nat) \<longleftrightarrow> take_bit 8 n = (of_char c :: nat)"
  using char_of_eq_iff [of n c] by auto

lemma of_char_NUL: "(of_char NUL :: nat) = 0"
  by (simp add: NUL_def)

lemma of_char_toupper:
  "(of_char (toupper c) :: nat) =
     (if 97 \<le> (of_char c :: nat) \<and> (of_char c :: nat) \<le> 122 then of_char c - 32 else of_char c)"
  by (auto simp: toupper_def)

lemma of_char_ascii_fold:
  "(of_char (ascii_fold c) :: nat) =
     (if 65 \<le> (of_char c :: nat) \<and> (of_char c :: nat) \<le> 90 then of_char c + 32 else of_char c)"
  by (simp add: ascii_fold_def)

lemma toupper_NUL: "toupper c = NUL \<longleftrightarrow> c = NUL"
proof -
  have "toupper c = NUL \<longleftrightarrow> (of_char (toupper c) :: nat) = of_char NUL"
    by (simp only: of_char_eq_iff)
  also have "\<dots> \<longleftrightarrow> (of_char c :: nat) = of_char NUL"
    by (simp add: of_char_toupper of_char_NUL)
  also have "\<dots> \<longleftrightarrow> c = NUL"
    by (simp only: of_char_eq_iff)
  finally show ?thesis .
qed

lemma upper_lower_codes:
  fixes n m :: nat
  shows "((if 97 \<le> n \<and> n \<le> 122 then n - 32 else n) = (if 97 \<le> m \<and> m \<le> 122 then m - 32 else m))
     \<longleftrightarrow> ((if 65 \<le> n \<and> n \<le> 90 then n + 32 else n) = (if 65 \<le> m \<and> m \<le> 90 then m + 32 else m))"
  by (auto split: if_splits)

lemma toupper_eq_iff_fold: "toupper c = toupper d \<longleftrightarrow> ascii_fold c = ascii_fold d"
proof -
  have "toupper c = toupper d \<longleftrightarrow> (of_char (toupper c) :: nat) = of_char (toupper d)"
    by (simp only: of_char_eq_iff)
  also have "\<dots> \<longleftrightarrow> (of_char (ascii_fold c) :: nat) = of_char (ascii_fold d)"
    unfolding of_char_toupper of_char_ascii_fold by (rule upper_lower_codes)
  also have "\<dots> \<longleftrightarrow> ascii_fold c = ascii_fold d"
    by (simp only: of_char_eq_iff)
  finally show ?thesis .
qed

lemma map_toupper_eq_iff_fold:
  "map toupper a = map toupper b \<longleftrightarrow> equal_ignoring_ascii_case a b"
  unfolding equal_ignoring_ascii_case_def
proof (induction a arbitrary: b)
  case Nil
  then show ?case by simp
next
  case (Cons x a)
  then show ?case by (cases b) (simp_all add: toupper_eq_iff_fold)
qed

lemma equal_ignoring_ascii_case_length:
  "equal_ignoring_ascii_case a b \<Longrightarrow> length a = length b"
  unfolding equal_ignoring_ascii_case_def by (rule map_eq_imp_length_eq)

subsection \<open>Reading the text\<close>

lemma read_chars_in_bounds:
  "0 \<le> p \<Longrightarrow> p + int n \<le> int (length s) \<Longrightarrow> read_chars s p n = Some (take n (drop (nat p) s))"
proof (induction n arbitrary: p)
  case 0
  then show ?case by simp
next
  case (Suc n)
  have lt: "nat p < length s" using Suc.prems by simp
  have rc: "read_char s p = Some (s ! nat p)"
    using Suc.prems by (simp add: read_char_def)
  have ih: "read_chars s (p + 1) n = Some (take n (drop (nat (p + 1)) s))"
    using Suc.prems by (intro Suc.IH) simp_all
  have np: "nat (p + 1) = Suc (nat p)" using Suc.prems by simp
  have "drop (nat p) s = s ! nat p # drop (Suc (nat p)) s"
    using lt by (simp add: Cons_nth_drop_Suc)
  then show ?case using rc ih np by simp
qed

lemma tok_text_String:
  "tok_type t = String \<Longrightarrow>
   tok_text t = \<lparr>sv_data = pStr (tok_begin t) + 1, sv_size = nat (span_length t - 2)\<rparr>"
  by (simp add: tok_text_def textBegin_def textEnd_def span_length_def Let_def)

lemma tok_text_other:
  "tok_type t \<noteq> String \<Longrightarrow>
   tok_text t = \<lparr>sv_data = pStr (tok_begin t), sv_size = nat (span_length t)\<rparr>"
  by (simp add: tok_text_def textBegin_def textEnd_def span_length_def Let_def)

lemma butlast_tl_take_drop:
  assumes "b + k \<le> length s"
  shows "butlast (tl (take k (drop b s))) = take (k - 2) (drop (Suc b) s)"
proof -
  have "tl (take k (drop b s)) = take (k - 1) (drop (Suc b) s)"
    by (simp add: tl_take tl_drop drop_Suc)
  moreover have "k - 1 \<le> length (drop (Suc b) s)" using assms by simp
  ultimately show ?thesis by (simp add: butlast_take numeral_2_eq_2)
qed

lemma view_chars_tok_text:
  assumes "token_in_text src t"
  shows "view_chars src (tok_text t) =
           Some (if tok_type t = String then butlast (tl (lexed_span src t)) else lexed_span src t)"
proof (cases "tok_type t = String")
  case False
  have "read_chars src (pStr (tok_begin t)) (nat (span_length t))
          = Some (take (nat (span_length t)) (drop (nat (pStr (tok_begin t))) src))"
    using assms by (intro read_chars_in_bounds) (simp_all add: token_in_text_def span_length_def)
  then show ?thesis using False
    by (simp add: view_chars_def tok_text_other lexed_span_def)
next
  case True
  let ?b = "pStr (tok_begin t)"
  let ?k = "span_length t"
  have bnd: "0 \<le> ?b" "0 \<le> ?k" "?b + ?k \<le> int (length src)"
    using assms by (simp_all add: token_in_text_def span_length_def)
  show ?thesis
  proof (cases "?k \<le> 2")
    case small: True
    have "length (tl (lexed_span src t)) \<le> 1"
      using small by (simp add: lexed_span_def)
    then have "butlast (tl (lexed_span src t)) = []"
      by (cases "tl (lexed_span src t)") simp_all
    then show ?thesis using True small
      by (simp add: view_chars_def tok_text_String)
  next
    case big: False
    have rd: "read_chars src (?b + 1) (nat (?k - 2))
            = Some (take (nat (?k - 2)) (drop (nat (?b + 1)) src))"
      using bnd big by (intro read_chars_in_bounds) simp_all
    have "nat ?b + nat ?k \<le> length src" using bnd by linarith
    then have "butlast (tl (take (nat ?k) (drop (nat ?b) src)))
            = take (nat ?k - 2) (drop (Suc (nat ?b)) src)"
      by (rule butlast_tl_take_drop)
    moreover have "nat (?b + 1) = Suc (nat ?b)" "nat (?k - 2) = nat ?k - 2"
      using bnd by simp_all
    ultimately show ?thesis using True rd
      by (simp add: view_chars_def tok_text_String lexed_span_def)
  qed
qed

subsection \<open>Case-insensitive comparison\<close>

lemma textEquals_loop_exit:
  "\<not> pThis < pThisEnd \<Longrightarrow> textEquals_loop src pThis pThisEnd other pOther = otherAtEnd other pOther"
  by (simp add: textEquals_loop.simps [of src pThis])

lemma otherAtEnd_start:
  "NUL \<notin> set other \<Longrightarrow> j \<le> length other \<Longrightarrow>
   otherAtEnd other (int j) = Returns (drop j other = [])"
  by (cases "j < length other") (auto simp: otherAtEnd_def read_char_def dest: nth_mem)

lemma textEquals_loop_correct:
  "read_chars src p n = Some cs \<Longrightarrow> NUL \<notin> set cs \<Longrightarrow> NUL \<notin> set other \<Longrightarrow>
   j \<le> length other \<Longrightarrow>
   textEquals_loop src p (p + int n) other (int j)
     = Returns (map toupper cs = map toupper (drop j other))"
proof (induction n arbitrary: p cs j)
  case 0
  then show ?case
    by (auto simp: textEquals_loop_exit otherAtEnd_start)
next
  case (Suc n)
  from Suc.prems(1) obtain c cs' where
    c: "read_char src p = Some c" and cs': "read_chars src (p + 1) n = Some cs'" and
    cs: "cs = c # cs'"
    by (auto split: option.splits)
  have cn: "c \<noteq> NUL" and csn: "NUL \<notin> set cs'" using Suc.prems(2) cs by auto
  show ?case
  proof (cases "j < length other")
    case False
    then have j: "j = length other" using Suc.prems(4) by simp
    have "toupper c \<noteq> toupper NUL" using cn toupper_NUL [of c] toupper_NUL [of NUL] by auto
    then show ?thesis using c j cs
      by (simp add: textEquals_loop.simps [of src p] read_char_def)
  next
    case True
    then have ro: "read_char other (int j) = Some (other ! j)"
      by (simp add: read_char_def)
    have dr: "drop j other = other ! j # drop (Suc j) other"
      using True by (simp add: Cons_nth_drop_Suc)
    have ih: "textEquals_loop src (p + 1) (p + 1 + int n) other (int (Suc j))
                = Returns (map toupper cs' = map toupper (drop (Suc j) other))"
      using cs' csn Suc.prems(3) True by (intro Suc.IH) simp_all
    have eq: "p + 1 + int n = p + int (Suc n)" "int (Suc j) = int j + 1" by simp_all
    have tn: "toupper c \<noteq> NUL" using cn toupper_NUL by simp
    show ?thesis using c ro dr ih tn cs unfolding eq
      by (simp add: textEquals_loop.simps [of src p])
  qed
qed

lemma textEqualsIgnoreCase_correct:
  assumes "view_chars src (tok_text t) = Some cs" "NUL \<notin> set cs" "NUL \<notin> set other"
  shows "textEqualsIgnoreCase src t other = Returns (equal_ignoring_ascii_case cs other)"
proof (cases "textBegin t < textEnd t")
  case True
  let ?n = "nat (textEnd t - textBegin t)"
  have rd: "read_chars src (textBegin t) ?n = Some cs"
    using assms(1) True by (simp add: view_chars_def tok_text_def Let_def)
  have "textEquals_loop src (textBegin t) (textBegin t + int ?n) other (int 0)
          = Returns (map toupper cs = map toupper (drop 0 other))"
    using rd assms(2,3) by (rule textEquals_loop_correct) simp
  moreover have "textBegin t + int ?n = textEnd t" using True by simp
  ultimately show ?thesis
    by (simp add: textEqualsIgnoreCase_def map_toupper_eq_iff_fold)
next
  case False
  have cs: "cs = []"
    using assms(1) False by (simp add: view_chars_def tok_text_def Let_def)
  have "otherAtEnd other (int 0) = Returns (drop 0 other = [])"
    using assms(3) by (rule otherAtEnd_start) simp
  then show ?thesis using False cs
    by (auto simp: textEqualsIgnoreCase_def textEquals_loop_exit equal_ignoring_ascii_case_def)
qed

lemma textEquals_loop_no_timeout:
  "textEquals_loop src pThis pThisEnd other pOther \<noteq> OutOfFuel
   \<and> textEquals_loop src pThis pThisEnd other pOther \<noteq> FatalError l c m"
proof (induction src pThis pThisEnd other pOther rule: textEquals_loop.induct)
  case (1 src pThis pThisEnd other pOther)
  show ?case
  proof (cases "pThis < pThisEnd")
    case False
    then show ?thesis
      by (simp add: textEquals_loop_exit otherAtEnd_def split: option.splits)
  next
    case True
    then show ?thesis using "1.IH"
      by (subst (1 2) textEquals_loop.simps)
         (auto simp: otherAtEnd_def split: option.splits)
  qed
qed

lemma textEqualsIgnoreCase_no_timeout:
  "textEqualsIgnoreCase src t other \<noteq> OutOfFuel"
  "textEqualsIgnoreCase src t other \<noteq> FatalError l c m"
  using textEquals_loop_no_timeout by (simp_all add: textEqualsIgnoreCase_def)

subsection \<open>Chains\<close>

lemma chain_unique: "chain link h p as \<Longrightarrow> chain link h p bs \<Longrightarrow> as = bs"
proof (induction as arbitrary: p bs)
  case Nil
  then show ?case by (cases bs) simp_all
next
  case (Cons a as)
  then show ?case by (cases bs) (auto split: option.splits)
qed

lemma chain_suffix: "chain link h p (xs @ a # ys) \<Longrightarrow> chain link h (Some a) (a # ys)"
proof (induction xs arbitrary: p)
  case Nil
  then show ?case by simp
next
  case (Cons x xs)
  from Cons.prems obtain lt where "h x = Some lt" "chain link h (link lt) (xs @ a # ys)"
    by (auto split: option.splits)
  then show ?case using Cons.IH by blast
qed

lemma chain_distinct: "chain link h p as \<Longrightarrow> distinct as"
proof (induction as arbitrary: p)
  case Nil
  then show ?case by simp
next
  case (Cons a as)
  from Cons.prems obtain lt where lt: "h a = Some lt" and tl: "chain link h (link lt) as"
    and p: "p = Some a"
    by (auto split: option.splits)
  have "a \<notin> set as"
  proof
    assume "a \<in> set as"
    then obtain xs ys where as: "as = xs @ a # ys" by (auto simp: in_set_conv_decomp)
    have "chain link h (Some a) (a # ys)"
      using tl chain_suffix [of link h "link lt" xs a ys] as by simp
    moreover have "chain link h (Some a) (a # as)" using Cons.prems p by simp
    ultimately have "a # as = a # ys" by (rule chain_unique [rotated])
    then show False using as by simp
  qed
  then show ?case using Cons.IH [OF tl] by simp
qed

lemma chain_live: "chain link h p as \<Longrightarrow> a \<in> set as \<Longrightarrow> \<exists>lt. h a = Some lt"
proof (induction as arbitrary: p)
  case Nil
  then show ?case by simp
next
  case (Cons x as)
  from Cons.prems(1) obtain lt where "h x = Some lt" "chain link h (link lt) as"
    by (auto split: option.splits)
  then show ?case using Cons.IH Cons.prems(2) by auto
qed

subsection \<open>Walking the header chain\<close>

lemma numTokensAhead_loop_chain:
  "chain pNext h p as \<Longrightarrow> length as < n \<Longrightarrow>
   numTokensAhead_loop n h p c = Returns (c + of_nat (length as))"
proof (induction as arbitrary: p n c)
  case Nil
  then show ?case by (cases n) simp_all
next
  case (Cons a as)
  then show ?case by (cases n) (auto split: option.splits simp: add.assoc add.commute)
qed

lemma numDataTokensAhead_loop_chain:
  "chain pNextData h p as \<Longrightarrow> length as < n \<Longrightarrow>
   numDataTokensAhead_loop n h p c = Returns (c + of_nat (length as))"
proof (induction as arbitrary: p n c)
  case Nil
  then show ?case by (cases n) simp_all
next
  case (Cons a as)
  then show ?case by (cases n) (auto split: option.splits simp: add.assoc add.commute)
qed

lemma unat_succ_below:
  fixes i index :: "32 word"
  assumes less: "unat i < unat index"
  shows "unat (i + 1) = Suc (unat i)"
proof -
  have "unat index < 2 ^ 32" using unsigned_less [of index] by simp
  then have "unat i + unat (1 :: 32 word) < 2 ^ LENGTH(32)" using less by simp
  then have "unat (i + 1) = unat i + unat (1 :: 32 word)" by (simp only: unat_add_lem)
  then show ?thesis by simp
qed

lemma getHeaderTokenWithIndex_loop_chain:
  "chain pNext h p as \<Longrightarrow> length as < n \<Longrightarrow> unat i \<le> unat index \<Longrightarrow>
   getHeaderTokenWithIndex_loop n h p i index =
     Returns (if unat index - unat i < length as then Some (as ! (unat index - unat i)) else None)"
proof (induction as arbitrary: p n i)
  case Nil
  then show ?case by (cases n) simp_all
next
  case (Cons a as)
  from Cons.prems obtain lt where lt: "h a = Some lt" and tl: "chain pNext h (pNext lt) as"
    and p: "p = Some a"
    by (auto split: option.splits)
  from Cons.prems obtain n' where n: "n = Suc n'" and n': "length as < n'"
    by (cases n) auto
  show ?case
  proof (cases "i = index")
    case True
    then show ?thesis using p n by simp
  next
    case False
    then have less: "unat i < unat index"
      using Cons.prems(3) by (simp add: word_unat_eq_iff)
    have suc: "unat (i + 1) = Suc (unat i)" using less by (rule unat_succ_below)
    have ih: "getHeaderTokenWithIndex_loop n' h (pNext lt) (i + 1) index =
        Returns (if unat index - unat (i + 1) < length as
                 then Some (as ! (unat index - unat (i + 1))) else None)"
      using tl n' less suc by (intro Cons.IH) simp_all
    obtain k where k: "unat index - unat i = Suc k" using less by (cases "unat index - unat i") auto
    then have k': "unat index - unat (i + 1) = k" using suc by simp
    show ?thesis using False p n lt ih k k' by simp
  qed
qed

lemma getHeaderTokenWithIndex_chain:
  assumes "chain pNext h (pHeader blk) as" "length as < n"
  shows "getHeaderTokenWithIndex n h blk index =
           Returns (if unat index < length as then Some (as ! unat index) else None)"
  using getHeaderTokenWithIndex_loop_chain [OF assms, of 0 index]
  by (simp add: getHeaderTokenWithIndex_def)

lemma getHeaderTokenCount_chain:
  assumes "chain pNext h (pHeader blk) as" "length as < n"
  shows "getHeaderTokenCount n h blk = Returns (of_nat (length as))"
proof (cases as)
  case Nil
  then show ?thesis using assms by (simp add: getHeaderTokenCount_def)
next
  case (Cons a as')
  from assms(1) Cons obtain lt where hd: "pHeader blk = Some a" and lt: "h a = Some lt"
    and tl: "chain pNext h (pNext lt) as'"
    by (auto split: option.splits)
  have "numTokensAhead_loop n h (pNext lt) 0 = Returns (0 + of_nat (length as'))"
    using tl assms(2) Cons by (intro numTokensAhead_loop_chain) simp_all
  then show ?thesis using hd lt Cons
    by (simp add: getHeaderTokenCount_def deref_def numTokensAhead_def)
qed

lemma sint_count:
  assumes "k < 2 ^ 31"
  shows "sint (of_nat k :: 32 word) = int k"
proof -
  have "- (2 ^ 31) \<le> int k" "int k < 2 ^ 31" using assms by simp_all
  then have "signed_take_bit 31 (int k) = int k" by (rule signed_take_bit_int_eq_self)
  then show ?thesis by (simp add: signed_of_nat)
qed

lemma sint_as_uint:
  fixes w :: "32 word"
  shows "sint w = (if uint w < 2 ^ 31 then uint w else uint w - 2 ^ 32)"
proof -
  have u: "0 \<le> uint w" "uint w < 2 ^ 32"
    using unsigned_less [of w, where 'a = int] by simp_all
  have s: "sint w = (uint w + 2 ^ 31) mod 2 ^ 32 - 2 ^ 31"
    by (simp add: sint_uint signed_take_bit_eq_take_bit_shift take_bit_eq_mod)
  show ?thesis
  proof (cases "uint w < 2 ^ 31")
    case True
    then have "(uint w + 2 ^ 31) mod 2 ^ 32 = uint w + 2 ^ 31"
      using u by (intro mod_pos_pos_trivial) simp_all
    then show ?thesis using s True by simp
  next
    case False
    have e: "uint w + 2 ^ 31 = uint w - 2 ^ 31 + 2 ^ 32" by simp
    have "(uint w + 2 ^ 31) mod 2 ^ 32 = (uint w - 2 ^ 31 + 2 ^ 32) mod 2 ^ 32"
      by (subst e) (rule refl)
    also have "\<dots> = (uint w - 2 ^ 31) mod 2 ^ 32"
      by (simp only: mod_add_self2)
    also have "\<dots> = uint w - 2 ^ 31"
      using u False by (intro mod_pos_pos_trivial) simp_all
    finally show ?thesis using s False by simp
  qed
qed

lemma unat_of_nonneg_sint:
  fixes index :: "32 word"
  assumes "0 \<le> sint index"
  shows "int (unat index) = sint index"
proof -
  have "uint index < 2 ^ 32" using unsigned_less [of index, where 'a = int] by simp
  then have "sint index = uint index"
    using assms sint_as_uint [of index] by (simp split: if_splits)
  then show ?thesis by simp
qed

lemma header_error_live:
  "pType blk = Some ty \<Longrightarrow> h ty = Some tlt \<Longrightarrow>
   header_error h blk =
     FatalError (line (tok_end (token tlt)) + 1) (column (tok_end (token tlt)) + 1)
       invalid_header_msg"
  by (simp add: header_error_def deref_def error_def)

lemma getRequiredHeaderToken_in_range:
  assumes "chain pNext h (pHeader blk) as" "length as < n" "unat index < length as"
    and "h (as ! unat index) = Some lt"
  shows "getRequiredHeaderToken n h blk index = Returns lt"
  using getHeaderTokenWithIndex_chain [OF assms(1,2), of index] assms(3,4)
  by (simp add: getRequiredHeaderToken_def deref_def)

lemma getRequiredHeaderToken_out_of_range:
  assumes "chain pNext h (pHeader blk) as" "length as < n" "length as \<le> unat index"
  shows "getRequiredHeaderToken n h blk index = header_error h blk"
  using getHeaderTokenWithIndex_chain [OF assms(1,2), of index] assms(3)
  by (simp add: getRequiredHeaderToken_def)

subsection \<open>The example document\<close>

lemma ex_heap_simps:
  "ex_heap 0 = Some (ex_tokens ! 0)" "ex_heap 1 = Some (ex_tokens ! 1)"
  "ex_heap 2 = Some (ex_tokens ! 2)" "ex_heap 3 = Some (ex_tokens ! 3)"
  "ex_heap 4 = Some (ex_tokens ! 4)" "ex_heap 5 = Some (ex_tokens ! 5)"
  "ex_heap 6 = Some (ex_tokens ! 6)" "ex_heap 7 = Some (ex_tokens ! 7)"
  "ex_heap 8 = Some (ex_tokens ! 8)" "ex_heap 9 = Some (ex_tokens ! 9)"
  "ex_heap 10 = Some (ex_tokens ! 10)" "ex_heap 11 = Some (ex_tokens ! 11)"
  "ex_heap 12 = Some (ex_tokens ! 12)"
  by (simp_all add: ex_heap_def heap_of_def ex_tokens_def)

lemma ex_header_chain: "chain pNext ex_heap (pHeader ex_block) [1, 2, 3]"
  by (simp add: ex_block_def ex_heap_def heap_of_def ex_tokens_def)

lemma ex_value_chain: "chain pNext ex_heap (pValues ex_block) [4, 6, 7, 11]"
  by (simp add: ex_block_def ex_heap_def heap_of_def ex_tokens_def)

lemma ex_data_chain: "chain pNextData ex_heap (pNextData (ex_tokens ! 7)) [8, 9, 10]"
  by (simp add: ex_heap_def heap_of_def ex_tokens_def)

subsection \<open>Looking a value up by name\<close>

lemma obind_no_fatal:
  "m \<noteq> FatalError l c msg \<Longrightarrow> (\<And>x. f x \<noteq> FatalError l c msg) \<Longrightarrow> obind m f \<noteq> FatalError l c msg"
  by (cases m) simp_all

lemma deref_no_fatal: "deref h p \<noteq> FatalError l c msg"
  by (simp add: deref_def split: option.splits)

lemma int32_of_float_no_fatal: "int32_of_float f \<noteq> FatalError l c msg"
  by (simp add: int32_of_float_def Let_def)

lemma small_string_of_view_no_fatal: "small_string_of_view mk src v \<noteq> FatalError l c msg"
  by (simp add: small_string_of_view_def split: option.splits)

lemma dataTokenOf_no_fatal: "dataTokenOf h p \<noteq> FatalError l c msg"
  by (auto simp: dataTokenOf_def deref_def split: option.splits)

lemma getValue_loop_no_fatal: "getValue_loop n h src p name \<noteq> FatalError l c msg"
proof (induction n arbitrary: p)
  case 0
  then show ?case by simp
next
  case (Suc n)
  show ?case
  proof (cases p)
    case None
    then show ?thesis by simp
  next
    case (Some a)
    show ?thesis
    proof (cases "h a")
      case None
      then show ?thesis using Some by simp
    next
      case (Some lt)
      have "obind (textEqualsIgnoreCase src (token lt) name)
              (\<lambda>eq. if eq then Returns (Some a) else getValue_loop n h src (pNext lt) name)
            \<noteq> FatalError l c msg"
        using textEqualsIgnoreCase_no_timeout(2) Suc.IH by (intro obind_no_fatal) simp_all
      then show ?thesis using Some \<open>p = Some a\<close> by simp
    qed
  qed
qed

lemma getValue_loop_chain_terminates:
  "chain pNext h p vs \<Longrightarrow> length vs < n \<Longrightarrow> getValue_loop n h src p name \<noteq> OutOfFuel"
proof (induction vs arbitrary: p n)
  case Nil
  then show ?case by (cases n) simp_all
next
  case (Cons a vs)
  from Cons.prems obtain lt where lt: "h a = Some lt" and tl: "chain pNext h (pNext lt) vs"
    and p: "p = Some a"
    by (auto split: option.splits)
  from Cons.prems obtain n' where n: "n = Suc n'" and n': "length vs < n'"
    by (cases n) auto
  have ih: "getValue_loop n' h src (pNext lt) name \<noteq> OutOfFuel"
    using tl n' by (rule Cons.IH)
  show ?case
    using p n lt ih textEqualsIgnoreCase_no_timeout(1) [of src "token lt" name]
    by (cases "textEqualsIgnoreCase src (token lt) name") simp_all
qed

lemma name_at_textEquals:
  assumes "name_at src h a = Some cs" "h a = Some lt" "NUL \<notin> set name"
  shows "textEqualsIgnoreCase src (token lt) name = Returns (name_matches src h name a)"
proof -
  from assms(1,2) have v: "view_chars src (tok_text (token lt)) = Some cs" and "NUL \<notin> set cs"
    by (auto simp: name_at_def split: option.splits if_splits)
  then have "textEqualsIgnoreCase src (token lt) name = Returns (equal_ignoring_ascii_case cs name)"
    using assms(3) by (intro textEqualsIgnoreCase_correct)
  then show ?thesis using assms(1) by (simp add: name_matches_def)
qed

lemma getValue_loop_chain:
  "chain pNext h p vs \<Longrightarrow> length vs < n \<Longrightarrow> names_readable src h vs \<Longrightarrow> NUL \<notin> set name \<Longrightarrow>
   getValue_loop n h src p name = Returns (find (name_matches src h name) vs)"
proof (induction vs arbitrary: p n)
  case Nil
  then show ?case by (cases n) simp_all
next
  case (Cons a vs)
  from Cons.prems obtain lt where lt: "h a = Some lt" and tl: "chain pNext h (pNext lt) vs"
    and p: "p = Some a"
    by (auto split: option.splits)
  from Cons.prems obtain n' where n: "n = Suc n'" and n': "length vs < n'"
    by (cases n) auto
  from Cons.prems(3) obtain cs where cs: "name_at src h a = Some cs"
    and rest: "names_readable src h vs"
    by (auto simp: names_readable_def)
  have eq: "textEqualsIgnoreCase src (token lt) name = Returns (name_matches src h name a)"
    using cs lt Cons.prems(4) by (rule name_at_textEquals)
  have ih: "getValue_loop n' h src (pNext lt) name = Returns (find (name_matches src h name) vs)"
    using tl n' rest Cons.prems(4) by (rule Cons.IH)
  show ?case using p n lt eq ih by simp
qed

lemma getValue_chain:
  assumes "chain pNext h (pValues blk) vs" "length vs < n" "names_readable src h vs"
    "NUL \<notin> set name"
  shows "getValue n h src blk name = Returns (find (name_matches src h name) vs)"
  using getValue_loop_chain [OF assms] by (simp add: getValue_def)

text \<open>\<open>getValue\<close> reads the tokens and the \<open>pNext\<close> links only.\<close>

lemma getValue_loop_cong:
  assumes "\<And>a. map_option (\<lambda>lt. (token lt, pNext lt)) (h a)
              = map_option (\<lambda>lt. (token lt, pNext lt)) (h' a)"
  shows "getValue_loop n h src p name = getValue_loop n h' src p name"
proof (induction n arbitrary: p)
  case 0
  then show ?case by simp
next
  case (Suc n)
  show ?case
  proof (cases p)
    case None
    then show ?thesis by simp
  next
    case (Some a)
    show ?thesis
    proof (cases "h a")
      case None
      then have "h' a = None" using assms [of a] by simp
      then show ?thesis using None Some by simp
    next
      case (Some lt)
      then obtain lt' where lt': "h' a = Some lt'" "token lt' = token lt" "pNext lt' = pNext lt"
        using assms [of a] by (cases "h' a") auto
      have ih: "getValue_loop n h src (pNext lt) name = getValue_loop n h' src (pNext lt) name"
        by (rule Suc.IH)
      show ?thesis using Some \<open>p = Some a\<close> lt' ih by (simp cong del: if_weak_cong)
    qed
  qed
qed

lemma cut_data_chain_same_links:
  "map_option (\<lambda>lt. (token lt, pNext lt)) (h a)
     = map_option (\<lambda>lt. (token lt, pNext lt)) (cut_data_chain h d a)"
  by (simp add: cut_data_chain_def split: option.splits)

lemma getValue_cut_data_chain:
  "getValue n (cut_data_chain h d) src blk name = getValue n h src blk name"
  unfolding getValue_def
  by (rule getValue_loop_cong [symmetric]) (rule cut_data_chain_same_links)

subsection \<open>Integers through \<open>float\<close>\<close>

lemma excess_bits_small: "a < 2 ^ 24 \<Longrightarrow> excess_bits a = 0"
  by (simp add: excess_bits.simps)

lemma float_of_int_exact:
  assumes "\<bar>x\<bar> \<le> 2 ^ 24"
  shows "float_of_int x = of_int x"
proof (cases "\<bar>x\<bar> < 2 ^ 24")
  case True
  then have "excess_bits (nat \<bar>x\<bar>) = 0" by (intro excess_bits_small) simp
  then have "float_of_int x = of_int (sgn x * int (nat \<bar>x\<bar>))"
    by (simp add: float_of_int_def Let_def)
  also have "sgn x * int (nat \<bar>x\<bar>) = x" by (simp add: mult_sgn_abs)
  finally show ?thesis .
next
  case False
  then have a: "nat \<bar>x\<bar> = 16777216" using assms by simp
  have e: "excess_bits 16777216 = 1"
    by (simp add: excess_bits.simps [of 16777216] excess_bits.simps [of 8388608])
  have "float_of_int x = of_int (sgn x * int (nat \<bar>x\<bar>))"
    by (simp add: float_of_int_def Let_def a e)
  also have "sgn x * int (nat \<bar>x\<bar>) = x" by (simp add: mult_sgn_abs)
  finally show ?thesis .
qed

lemma int32_of_float_of_int:
  "- (2 ^ 31) \<le> z \<Longrightarrow> z < 2 ^ 31 \<Longrightarrow> int32_of_float (of_int z) = Returns (word_of_int z)"
  by (simp add: int32_of_float_def Let_def)

lemma int32_float_round_trip:
  assumes "\<bar>sint d\<bar> \<le> 2 ^ 24"
  shows "int32_of_float (float_of_int32 d) = Returns d"
proof -
  have f: "float_of_int32 d = of_int (sint d)"
    unfolding float_of_int32_def using assms by (rule float_of_int_exact)
  have "- (2 ^ 31) \<le> sint d" "sint d < 2 ^ 31" using assms by simp_all
  then have r: "int32_of_float (of_int (sint d)) = Returns (word_of_int (sint d))"
    by (rule int32_of_float_of_int)
  have w: "(word_of_int (sint d) :: 32 word) = d" by simp
  show ?thesis unfolding f r w by (rule refl)
qed

lemma float_of_int32_16777217: "float_of_int32 16777217 = 16777216"
proof -
  have e: "excess_bits 16777217 = 1"
    by (simp add: excess_bits.simps [of 16777217] excess_bits.simps [of 8388608])
  have s: "sint (16777217 :: 32 word) = 16777217" by simp
  show ?thesis unfolding float_of_int32_def s float_of_int_def
    by (simp add: e Let_def)
qed

lemma int32_float_16777217: "int32_of_float (float_of_int32 16777217) = Returns 16777216"
  unfolding float_of_int32_16777217 by (simp add: int32_of_float_def Let_def)

subsection \<open>The values of the example document\<close>

lemma ex_names:
  "name_at ex_src ex_heap 4 = Some ''Music''"
  "name_at ex_src ex_heap 6 = Some ''NoIntermission''"
  "name_at ex_src ex_heap 7 = Some ''SpecialAction''"
  "name_at ex_src ex_heap 11 = Some ''Sky''"
proof -
  have it: "token_in_text ex_src (token (ex_tokens ! 4))"
    "token_in_text ex_src (token (ex_tokens ! 6))"
    "token_in_text ex_src (token (ex_tokens ! 7))"
    "token_in_text ex_src (token (ex_tokens ! 11))"
    by (simp_all add: token_in_text_def ex_tokens_def ex_tok_def ex_src_def)
  have sp: "lexed_span ex_src (token (ex_tokens ! 4)) = ''Music''"
    "lexed_span ex_src (token (ex_tokens ! 6)) = ''NoIntermission''"
    "lexed_span ex_src (token (ex_tokens ! 7)) = ''SpecialAction''"
    "lexed_span ex_src (token (ex_tokens ! 11)) = ''Sky''"
    by (simp_all add: lexed_span_def span_length_def ex_tokens_def ex_tok_def ex_src_def)
  have ty: "tok_type (token (ex_tokens ! 4)) \<noteq> String" "tok_type (token (ex_tokens ! 6)) \<noteq> String"
    "tok_type (token (ex_tokens ! 7)) \<noteq> String" "tok_type (token (ex_tokens ! 11)) \<noteq> String"
    by (simp_all add: ex_tokens_def ex_tok_def)
  show "name_at ex_src ex_heap 4 = Some ''Music''"
    "name_at ex_src ex_heap 6 = Some ''NoIntermission''"
    "name_at ex_src ex_heap 7 = Some ''SpecialAction''"
    "name_at ex_src ex_heap 11 = Some ''Sky''"
    by (simp_all add: name_at_def ex_heap_simps view_chars_tok_text it sp ty NUL_char)
qed

lemma ex_names_readable: "names_readable ex_src ex_heap [4, 6, 7, 11]"
  by (simp add: names_readable_def ex_names)

lemmas eval_case = equal_ignoring_ascii_case_def ascii_fold_def char_of_eq_iff char_eq_char_of

lemma ex_find_Sky: "find (name_matches ex_src ex_heap ''SKY'') [4, 6, 7, 11] = Some 11"
  by (simp add: name_matches_def ex_names eval_case)

lemma ex_find_NoIntermission:
  "find (name_matches ex_src ex_heap ''nointermission'') [4, 6, 7, 11] = Some 6"
  by (simp add: name_matches_def ex_names eval_case)

lemma ex_find_SpecialAction:
  "find (name_matches ex_src ex_heap ''SpecialAction'') [4, 6, 7, 11] = Some 7"
  by (simp add: name_matches_def ex_names eval_case)

lemma ex_find_Music: "find (name_matches ex_src ex_heap ''Music'') [4, 6, 7, 11] = Some 4"
  by (simp add: name_matches_def ex_names eval_case)

lemma ex_find_Par: "find (name_matches ex_src ex_heap ''Par'') [4, 6, 7, 11] = None"
  by (simp add: name_matches_def ex_names eval_case)

lemma ex_names_NUL:
  "NUL \<notin> set ''SKY''" "NUL \<notin> set ''nointermission''" "NUL \<notin> set ''SpecialAction''"
  "NUL \<notin> set ''Music''" "NUL \<notin> set ''Par''"
  by (simp_all add: NUL_char)

subsection \<open>The single value accessors, by cases of the lookup\<close>

lemma getSingleNumberValue_data:
  assumes "getValue n h src blk name = Returns (Some a)" "h a = Some lt"
    "pNextData lt = Some da" "h da = Some dt"
  shows "getSingleNumberValue n h src blk name d =
           Returns (if tok_type (token dt) = Number then tok_number (token dt)
                    else if tok_type (token dt) = True_tok then 1
                    else if tok_type (token dt) = False_tok then 0
                    else d)"
  using assms by (simp add: getSingleNumberValue_def dataTokenOf_def deref_def)

lemma getSingleNumberValue_flag:
  assumes "getValue n h src blk name = Returns (Some a)" "h a = Some lt" "pNextData lt = None"
  shows "getSingleNumberValue n h src blk name d = Returns 1"
  using assms by (simp add: getSingleNumberValue_def dataTokenOf_def deref_def)

lemma getSingleNumberValue_absent:
  assumes "getValue n h src blk name = Returns None"
  shows "getSingleNumberValue n h src blk name d = Returns d"
  using assms by (simp add: getSingleNumberValue_def dataTokenOf_def)

lemma getSingleSmallStringValue_data:
  assumes "getValue n h src blk name = Returns (Some a)" "h a = Some lt"
    "pNextData lt = Some da" "h da = Some dt"
  shows "getSingleSmallStringValue mk n h src blk name d =
           small_string_of_view mk src (tok_text (token dt))"
  using assms by (simp add: getSingleSmallStringValue_def dataTokenOf_def deref_def)

lemma getSingleSmallStringValue_flag:
  assumes "getValue n h src blk name = Returns (Some a)" "h a = Some lt" "pNextData lt = None"
  shows "getSingleSmallStringValue mk n h src blk name d = Returns d"
  using assms by (simp add: getSingleSmallStringValue_def dataTokenOf_def deref_def)

lemma getSingleSmallStringValue_absent:
  assumes "getValue n h src blk name = Returns None"
  shows "getSingleSmallStringValue mk n h src blk name d = Returns d"
  using assms by (simp add: getSingleSmallStringValue_def dataTokenOf_def)

lemma getSingleNumberValue_no_fatal:
  "getSingleNumberValue n h src blk name d \<noteq> FatalError l c msg"
  unfolding getSingleNumberValue_def getValue_def
  by (intro obind_no_fatal getValue_loop_no_fatal dataTokenOf_no_fatal)
     (auto simp: deref_def Let_def split: option.splits)

lemma getSingleIntValue_no_fatal:
  "getSingleIntValue n h src blk name d \<noteq> FatalError l c msg"
  unfolding getSingleIntValue_def
  by (intro obind_no_fatal getSingleNumberValue_no_fatal int32_of_float_no_fatal)

lemma getSingleSmallStringValue_no_fatal:
  "getSingleSmallStringValue mk n h src blk name d \<noteq> FatalError l c msg"
  unfolding getSingleSmallStringValue_def getValue_def
  by (intro obind_no_fatal getValue_loop_no_fatal dataTokenOf_no_fatal)
     (auto simp: deref_def small_string_of_view_def split: option.splits)

lemma ex_getValue:
  "getValue 5 ex_heap ex_src ex_block ''SKY'' = Returns (Some 11)"
  "getValue 5 ex_heap ex_src ex_block ''nointermission'' = Returns (Some 6)"
  "getValue 5 ex_heap ex_src ex_block ''SpecialAction'' = Returns (Some 7)"
  "getValue 5 ex_heap ex_src ex_block ''Music'' = Returns (Some 4)"
  "getValue 5 ex_heap ex_src ex_block ''Par'' = Returns None"
proof -
  have len: "length [4, 6, 7, 11 :: addr] < 5" by simp
  note gv = getValue_chain [OF ex_value_chain len ex_names_readable]
  show "getValue 5 ex_heap ex_src ex_block ''SKY'' = Returns (Some 11)"
    using gv [OF ex_names_NUL(1)] ex_find_Sky by simp
  show "getValue 5 ex_heap ex_src ex_block ''nointermission'' = Returns (Some 6)"
    using gv [OF ex_names_NUL(2)] ex_find_NoIntermission by simp
  show "getValue 5 ex_heap ex_src ex_block ''SpecialAction'' = Returns (Some 7)"
    using gv [OF ex_names_NUL(3)] ex_find_SpecialAction by simp
  show "getValue 5 ex_heap ex_src ex_block ''Music'' = Returns (Some 4)"
    using gv [OF ex_names_NUL(4)] ex_find_Music by simp
  show "getValue 5 ex_heap ex_src ex_block ''Par'' = Returns None"
    using gv [OF ex_names_NUL(5)] ex_find_Par by simp
qed

lemma ex_links:
  "pNextData (ex_tokens ! 11) = Some 12" "pNextData (ex_tokens ! 6) = None"
  "pNextData (ex_tokens ! 7) = Some 8" "pNextData (ex_tokens ! 4) = Some 5"
  "tok_type (token (ex_tokens ! 12)) = String" "tok_type (token (ex_tokens ! 5)) = Number"
  "tok_type (token (ex_tokens ! 8)) = Number" "tok_number (token (ex_tokens ! 8)) = 3"
  "tok_number (token (ex_tokens ! 5)) = 5"
  by (simp_all add: ex_tokens_def ex_tok_def)

text \<open>The short string accessor does not look at the kind of the data token: for
  \<open>Music = 5\<close> it returns the text of the number, not the default.\<close>

lemma getSingleSmallStringValue_of_number_data:
  "getSingleSmallStringValue (\<lambda>cs. cs) 5 ex_heap ex_src ex_block ''Music'' ''DEFAULT''
     = Returns ''5''"
proof -
  have it: "token_in_text ex_src (token (ex_tokens ! 5))"
    by (simp add: token_in_text_def ex_tokens_def ex_tok_def ex_src_def)
  have sp: "lexed_span ex_src (token (ex_tokens ! 5)) = ''5''"
    by (simp add: lexed_span_def span_length_def ex_tokens_def ex_tok_def ex_src_def)
  have v: "view_chars ex_src (tok_text (token (ex_tokens ! 5))) = Some ''5''"
    using view_chars_tok_text [OF it] sp ex_links(6) by simp
  have sz: "sv_size (tok_text (token (ex_tokens ! 5))) = 1"
    using ex_links(6) by (simp add: tok_text_other span_length_def ex_tokens_def ex_tok_def)
  have "small_string_of_view (\<lambda>cs. cs) ex_src (tok_text (token (ex_tokens ! 5))) = Returns ''5''"
    using v by (simp add: small_string_of_view_def view_chars_def sz)
  then show ?thesis
    using getSingleSmallStringValue_data
            [OF ex_getValue(4) ex_heap_simps(5) ex_links(4) ex_heap_simps(6),
              where mk = "\<lambda>cs. cs" and d = "''DEFAULT''"]
    by simp
qed

subsection \<open>Facts about the first data token\<close>

lemma small_string_of_view_in_text:
  assumes "token_in_text src t" and "span_length t < 2 ^ 32"
  shows "small_string_of_view mk src (tok_text t) =
           Returns (mk (if tok_type t = String then butlast (tl (lexed_span src t))
                        else lexed_span src t))"
proof -
  have "sv_size (tok_text t) < 2 ^ 32"
  proof (cases "tok_type t = String")
    case True
    then show ?thesis using assms(2) by (simp add: tok_text_String)
  next
    case False
    then show ?thesis using assms(2) by (simp add: tok_text_other)
  qed
  then have "sv_size (tok_text t) mod 2 ^ 32 = sv_size (tok_text t)" by simp
  then show ?thesis
    using view_chars_tok_text [OF assms(1)]
    by (simp add: small_string_of_view_def view_chars_def)
qed

lemma int32_of_float_small_numerals:
  "int32_of_float 0 = Returns 0" "int32_of_float 1 = Returns 1" "int32_of_float 3 = Returns 3"
  by (simp_all add: int32_of_float_def Let_def)

lemma first_data_token_not_owner:
  assumes "h a = Some lt" and "chain pNextData h (pNextData lt) (d # ds)"
  shows "a \<noteq> d"
proof
  assume "a = d"
  from assms(2) obtain dt where dt: "h d = Some dt" and rest: "chain pNextData h (pNextData dt) ds"
    by (auto split: option.splits)
  have "dt = lt" using dt assms(1) \<open>a = d\<close> by simp
  then have "chain pNextData h (pNextData lt) ds" using rest by simp
  then have "ds = d # ds" using assms(2) by (rule chain_unique)
  then have "length ds = length (d # ds)" by (rule arg_cong)
  then show False by simp
qed

subsection \<open>The text of a token\<close>

text \<open>
  C5. \<open>textEqualsIgnoreCase\<close> returns true exactly when the token's text and the
  comparison string have the same characters up to ASCII case folding; texts of different
  lengths are never equal. The token's text is the characters \<open>cs\<close> its text view denotes;
  as C strings, neither text holds a NUL character.
\<close>

theorem textEqualsIgnoreCase_iff_equal_up_to_case:
  assumes "view_chars src (tok_text t) = Some cs" and "NUL \<notin> set cs" and "NUL \<notin> set other"
  shows "textEqualsIgnoreCase src t other = Returns (equal_ignoring_ascii_case cs other)
       \<and> (length cs \<noteq> length other \<longrightarrow> textEqualsIgnoreCase src t other = Returns False)"
proof -
  have eq: "textEqualsIgnoreCase src t other = Returns (equal_ignoring_ascii_case cs other)"
    using assms by (rule textEqualsIgnoreCase_correct)
  moreover have "length cs \<noteq> length other \<longrightarrow> \<not> equal_ignoring_ascii_case cs other"
    using equal_ignoring_ascii_case_length by blast
  ultimately show ?thesis by simp
qed

theorem textEqualsIgnoreCase_iff_equal_up_to_case_witness:
  "view_chars ex_src (tok_text (ex_tok 0 3 Identifier 0)) = Some ''Map''
   \<and> NUL \<notin> set ''Map'' \<and> NUL \<notin> set ''MAP'' \<and> NUL \<notin> set ''Maps''
   \<and> textEqualsIgnoreCase ex_src (ex_tok 0 3 Identifier 0) ''MAP'' = Returns True
   \<and> textEqualsIgnoreCase ex_src (ex_tok 0 3 Identifier 0) ''Maps'' = Returns False"
proof -
  have "token_in_text ex_src (ex_tok 0 3 Identifier 0)"
    by (simp add: token_in_text_def ex_tok_def ex_src_def)
  then have v: "view_chars ex_src (tok_text (ex_tok 0 3 Identifier 0)) = Some ''Map''"
    by (simp add: view_chars_tok_text lexed_span_def span_length_def ex_tok_def ex_src_def)
  have n: "NUL \<notin> set ''Map''" "NUL \<notin> set ''MAP''" "NUL \<notin> set ''Maps''"
    by (simp_all add: NUL_char)
  have e: "equal_ignoring_ascii_case ''Map'' ''MAP''"
    by (simp add: equal_ignoring_ascii_case_def ascii_fold_def char_of_eq_iff char_eq_char_of)
  show ?thesis
    using textEqualsIgnoreCase_iff_equal_up_to_case [OF v n(1) n(2)]
      textEqualsIgnoreCase_iff_equal_up_to_case [OF v n(1) n(3)] v n e
    by auto
qed

text \<open>
  C6. For a String token, \<open>text()\<close> is the lexed span without its first and its last
  character: the view starts one character after \<open>begin\<close> and is two characters shorter
  than the span. For every other kind it is the raw lexed span from \<open>begin\<close> to \<open>end\<close>.
  For a token that lies in the text, the view denotes these characters.
\<close>

theorem text_is_span_without_quotes:
  "(tok_type t = String \<longrightarrow>
      tok_text t = \<lparr>sv_data = pStr (tok_begin t) + 1, sv_size = nat (span_length t - 2)\<rparr>)
   \<and> (tok_type t \<noteq> String \<longrightarrow>
      tok_text t = \<lparr>sv_data = pStr (tok_begin t), sv_size = nat (span_length t)\<rparr>)
   \<and> (token_in_text src t \<longrightarrow>
      view_chars src (tok_text t) =
        Some (if tok_type t = String then butlast (tl (lexed_span src t)) else lexed_span src t))"
  using tok_text_String [of t] tok_text_other [of t] view_chars_tok_text [of src t]
  by blast

theorem text_is_span_without_quotes_witness:
  "tok_type (ex_tok 6 12 String 0) = String
   \<and> token_in_text ex_src (ex_tok 6 12 String 0)
   \<and> tok_text (ex_tok 6 12 String 0) = \<lparr>sv_data = 7, sv_size = 4\<rparr>
   \<and> view_chars ex_src (tok_text (ex_tok 6 12 String 0)) = Some ''E1M1''
   \<and> tok_type (ex_tok 20 25 Identifier 0) \<noteq> String
   \<and> token_in_text ex_src (ex_tok 20 25 Identifier 0)
   \<and> tok_text  (ex_tok 20 25 Identifier 0) = \<lparr>sv_data = 20, sv_size = 5\<rparr>
   \<and> view_chars ex_src (tok_text (ex_tok 20 25 Identifier 0)) = Some ''Music''"
proof -
  have a: "token_in_text ex_src (ex_tok 6 12 String 0)"
    and b: "token_in_text ex_src (ex_tok 20 25 Identifier 0)"
    by (simp_all add: token_in_text_def ex_tok_def ex_src_def)
  have ty: "tok_type (ex_tok 6 12 String 0) = String"
    "tok_type (ex_tok 20 25 Identifier 0) \<noteq> String"
    by (simp_all add: ex_tok_def)
  have sp: "lexed_span ex_src (ex_tok 6 12 String 0) = [CHR 0x22] @ ''E1M1'' @ [CHR 0x22]"
    "lexed_span ex_src (ex_tok 20 25 Identifier 0) = ''Music''"
    by (simp_all add: lexed_span_def span_length_def ex_tok_def ex_src_def)
  have sz: "span_length (ex_tok 6 12 String 0) = 6" "span_length (ex_tok 20 25 Identifier 0) = 5"
    "pStr (tok_begin (ex_tok 6 12 String 0)) = 6"
    "pStr (tok_begin (ex_tok 20 25 Identifier 0)) = 20"
    by (simp_all add: span_length_def ex_tok_def)
  show ?thesis
    using text_is_span_without_quotes [of "ex_tok 6 12 String 0" ex_src]
      text_is_span_without_quotes [of "ex_tok 20 25 Identifier 0" ex_src]
    by (auto simp: a b ty sp sz)
qed

text \<open>
  C10. \<open>text()\<close> is defined on every token and reads no memory. For a String token
  whose stored span has two characters or fewer it is the empty view, not an inverted
  one; the length of the view of a String token is the length of the span minus the two
  quote characters, taken as zero when that difference is negative, and no view is longer
  than a (non-inverted) span.
\<close>

theorem text_of_short_string_is_empty:
  "(tok_type t = String \<and> span_length t \<le> 2 \<longrightarrow>
      sv_size (tok_text t) = 0 \<and> view_chars src (tok_text t) = Some [])
   \<and> (tok_type t = String \<longrightarrow> int (sv_size (tok_text t)) = max 0 (span_length t - 2))
   \<and> int (sv_size (tok_text t)) \<le> max 0 (span_length t)"
proof (cases "tok_type t = String")
  case True
  then show ?thesis by (auto simp: tok_text_String view_chars_def)
next
  case False
  then show ?thesis by (auto simp: tok_text_other)
qed

theorem text_of_short_string_is_empty_witness:
  "tok_type (ex_tok 6 8 String 0) = String \<and> span_length (ex_tok 6 8 String 0) \<le> 2
   \<and> sv_size (tok_text (ex_tok 6 8 String 0)) = 0
   \<and> view_chars ex_src (tok_text (ex_tok 6 8 String 0)) = Some []
   \<and> tok_type (ex_tok 6 7 String 0) = String \<and> span_length (ex_tok 6 7 String 0) \<le> 2
   \<and> sv_size (tok_text (ex_tok 6 7 String 0)) = 0
   \<and> int (sv_size (tok_text (ex_tok 6 12 String 0))) = 4"
  using text_of_short_string_is_empty [of "ex_tok 6 8 String 0" ex_src]
    text_of_short_string_is_empty [of "ex_tok 6 7 String 0" ex_src]
    text_of_short_string_is_empty [of "ex_tok 6 12 String 0" ex_src]
  by (auto simp: span_length_def ex_tok_def)

subsection \<open>Header accessors\<close>

text \<open>
  C8. For a block whose header chain is acyclic (it visits the entries \<open>as\<close> and ends in
  the absent link), \<open>getHeaderTokenCount\<close> returns the number of entries of the chain (as
  an \<open>int32_t\<close>, which holds the count when it is below \<open>2^31\<close>), and
  \<open>getHeaderTokenWithIndex(i)\<close> returns the \<open>i\<close>-th entry, counted from zero, when \<open>i\<close>
  is less than the count, and \<open>nullptr\<close> otherwise; no error is raised.
\<close>

theorem header_count_and_lookup:
  assumes "chain pNext h (pHeader blk) as" and "length as < n"
  shows "getHeaderTokenCount n h blk = Returns (of_nat (length as))
       \<and> (length as < 2 ^ 31 \<longrightarrow> sint (of_nat (length as) :: 32 word) = int (length as))
       \<and> getHeaderTokenWithIndex n h blk i =
           Returns (if unat i < length as then Some (as ! unat i) else None)"
  using getHeaderTokenCount_chain [OF assms] getHeaderTokenWithIndex_chain [OF assms, of i]
    sint_count [of "length as"]
  by simp

theorem header_count_and_lookup_witness:
  "chain pNext ex_heap (pHeader ex_block) [1, 2, 3] \<and> length [1, 2, 3 :: addr] < 4
   \<and> length [1, 2, 3 :: addr] < 2 ^ 31
   \<and> getHeaderTokenCount 4 ex_heap ex_block = Returns 3
   \<and> getHeaderTokenWithIndex 4 ex_heap ex_block 1 = Returns (Some 2)
   \<and> getHeaderTokenWithIndex 4 ex_heap ex_block 3 = Returns None"
proof -
  have len: "length [1, 2, 3 :: addr] < 4" by simp
  show ?thesis
    using header_count_and_lookup [OF ex_header_chain len, of 1]
      header_count_and_lookup [OF ex_header_chain len, of 3] ex_header_chain
    by simp
qed

text \<open>
  C2, as the code has it. For a block with an acyclic header chain and every index
  greater than or equal to the number of header tokens, \<open>getRequiredHeaderToken\<close> raises
  the fatal error instead of returning. The error cites the end of the block's type token
  (\<open>pType->token.end\<close>, one past its last character, printed one based), not the start of
  the block.
\<close>

theorem getRequiredHeaderToken_out_of_range_is_fatal:
  assumes "chain pNext h (pHeader blk) as" and "length as < n"
    and "int (length as) \<le> sint index"
    and "pType blk = Some ty" and "h ty = Some tlt"
  shows "getRequiredHeaderToken n h blk index =
           FatalError (line (tok_end (token tlt)) + 1) (column (tok_end (token tlt)) + 1)
             invalid_header_msg"
proof -
  have "0 \<le> sint index" using assms(3) by simp
  then have "int (unat index) = sint index" by (rule unat_of_nonneg_sint)
  then have "length as \<le> unat index" using assms(3) by linarith
  then show ?thesis
    using getRequiredHeaderToken_out_of_range [OF assms(1,2)]
      header_error_live [where h = h and blk = blk, OF assms(4,5)]
    by simp
qed

theorem getRequiredHeaderToken_out_of_range_is_fatal_witness:
  "chain pNext ex_heap (pHeader ex_block) [1, 2, 3] \<and> length [1, 2, 3 :: addr] < 4
   \<and> int (length [1, 2, 3 :: addr]) \<le> sint (5 :: 32 word)
   \<and> pType ex_block = Some 0 \<and> ex_heap 0 = Some (ex_tokens ! 0)
   \<and> getRequiredHeaderToken 4 ex_heap ex_block 5 = FatalError 1 4 invalid_header_msg"
proof -
  have len: "length [1, 2, 3 :: addr] < 4" by simp
  have ix: "int (length [1, 2, 3 :: addr]) \<le> sint (5 :: 32 word)" by simp
  have ty: "pType ex_block = Some 0" by (simp add: ex_block_def)
  have loc: "line (tok_end (token (ex_tokens ! 0))) + 1 = 1"
    "column (tok_end (token (ex_tokens ! 0))) + 1 = 4"
    by (simp_all add: ex_tokens_def ex_tok_def)
  show ?thesis
    using getRequiredHeaderToken_out_of_range_is_fatal
            [OF ex_header_chain len ix ty ex_heap_simps(1)]
      ex_header_chain ty ex_heap_simps(1) loc
    by simp
qed

text \<open>
  The claim as the specification states it fails on the example block, whose type token
  \<open>Map\<close> spans the columns 0 to 3 of line 0: the block has three header tokens, index 3
  raises the error citing line 1, column 4, whereas the start of the block is line 1,
  column 1.
\<close>

theorem getRequiredHeaderToken_cites_block_start_counterexample:
  "getHeaderTokenCount 4 ex_heap ex_block = Returns 3
   \<and> getRequiredHeaderToken 4 ex_heap ex_block 3 = FatalError 1 4 invalid_header_msg
   \<and> (error (tok_begin (token (ex_tokens ! 0))) invalid_header_msg :: LinkedToken outcome)
       = FatalError 1 1 invalid_header_msg
   \<and> FatalError 1 4 invalid_header_msg
       \<noteq> (FatalError 1 1 invalid_header_msg :: LinkedToken outcome)"
proof -
  have len: "length [1, 2, 3 :: addr] < 4" by simp
  have ty: "pType ex_block = Some 0" by (simp add: ex_block_def)
  have loc: "line (tok_end (token (ex_tokens ! 0))) + 1 = 1"
    "column (tok_end (token (ex_tokens ! 0))) + 1 = 4"
    by (simp_all add: ex_tokens_def ex_tok_def)
  have "getRequiredHeaderToken 4 ex_heap ex_block 3 = header_error ex_heap ex_block"
    using ex_header_chain len by (rule getRequiredHeaderToken_out_of_range) simp
  then have "getRequiredHeaderToken 4 ex_heap ex_block 3 = FatalError 1 4 invalid_header_msg"
    using header_error_live [where h = ex_heap and blk = ex_block, OF ty ex_heap_simps(1)] loc
    by simp
  moreover have "getHeaderTokenCount 4 ex_heap ex_block = Returns 3"
    using getHeaderTokenCount_chain [OF ex_header_chain len] by simp
  moreover have
    "(error (tok_begin (token (ex_tokens ! 0))) invalid_header_msg :: LinkedToken outcome)
       = FatalError 1 1 invalid_header_msg"
    by (simp add: error_def ex_tokens_def ex_tok_def)
  ultimately show ?thesis by simp
qed

text \<open>
  C4. For a block with an acyclic header chain and an index in range, let \<open>lt\<close> be the
  header token at that index. \<open>getRequiredHeaderNumber\<close> returns the stored number of a
  Number token, 1 for \<open>true\<close>, 0 for \<open>false\<close>, and raises the fatal error for every other
  kind. \<open>getRequiredHeaderSmallString\<close> builds the small string from the text of a String
  token without its quotes, and from the text of an Identifier token (for a token lying
  in the MAPINFO text, shorter than \<open>2^32\<close> characters).
\<close>

theorem required_header_coercions:
  assumes "chain pNext h (pHeader blk) as" and "length as < n"
    and "0 \<le> sint index" and "sint index < int (length as)"
    and "h (as ! unat index) = Some lt"
  shows "(tok_type (token lt) = Number \<longrightarrow>
            getRequiredHeaderNumber n h blk index = Returns (tok_number (token lt)))
       \<and> (tok_type (token lt) = True_tok \<longrightarrow> getRequiredHeaderNumber n h blk index = Returns 1)
       \<and> (tok_type (token lt) = False_tok \<longrightarrow> getRequiredHeaderNumber n h blk index = Returns 0)
       \<and> (tok_type (token lt) \<notin> {Number, True_tok, False_tok}
            \<and> pType blk = Some ty \<and> h ty = Some tlt \<longrightarrow>
            getRequiredHeaderNumber n h blk index =
              FatalError (line (tok_end (token tlt)) + 1) (column (tok_end (token tlt)) + 1)
                invalid_header_msg)
       \<and> (tok_type (token lt) \<in> {String, Identifier}
            \<and> token_in_text src (token lt) \<and> span_length (token lt) < 2 ^ 32 \<longrightarrow>
            getRequiredHeaderSmallString mk n h src blk index =
              Returns (mk (if tok_type (token lt) = String
                           then butlast (tl (lexed_span src (token lt)))
                           else lexed_span src (token lt))))"
proof -
  have "int (unat index) = sint index" using assms(3) by (rule unat_of_nonneg_sint)
  then have "unat index < length as" using assms(4) by linarith
  then have tok: "getRequiredHeaderToken n h blk index = Returns lt"
    using assms(1,2,5) by (intro getRequiredHeaderToken_in_range)
  have num: "tok_type (token lt) = Number \<longrightarrow>
      getRequiredHeaderNumber n h blk index = Returns (tok_number (token lt))"
    and tr: "tok_type (token lt) = True_tok \<longrightarrow> getRequiredHeaderNumber n h blk index = Returns 1"
    and fa: "tok_type (token lt) = False_tok \<longrightarrow> getRequiredHeaderNumber n h blk index = Returns 0"
    using tok by (simp_all add: getRequiredHeaderNumber_def)
  have other: "tok_type (token lt) \<notin> {Number, True_tok, False_tok}
      \<and> pType blk = Some ty \<and> h ty = Some tlt \<longrightarrow>
      getRequiredHeaderNumber n h blk index =
        FatalError (line (tok_end (token tlt)) + 1) (column (tok_end (token tlt)) + 1)
          invalid_header_msg"
    using tok by (auto simp: getRequiredHeaderNumber_def header_error_live)
  have str: "tok_type (token lt) \<in> {String, Identifier}
      \<and> token_in_text src (token lt) \<and> span_length (token lt) < 2 ^ 32 \<longrightarrow>
      getRequiredHeaderSmallString mk n h src blk index =
        Returns (mk (if tok_type (token lt) = String
                     then butlast (tl (lexed_span src (token lt)))
                     else lexed_span src (token lt)))"
  proof (intro impI, elim conjE)
    assume kind: "tok_type (token lt) \<in> {String, Identifier}"
      and it: "token_in_text src (token lt)" and sz: "span_length (token lt) < 2 ^ 32"
    have "sv_size (tok_text (token lt)) < 2 ^ 32"
    proof (cases "tok_type (token lt) = String")
      case True
      then show ?thesis using sz by (simp add: tok_text_String)
    next
      case False
      then show ?thesis using sz by (simp add: tok_text_other)
    qed
    then have "sv_size (tok_text (token lt)) mod 2 ^ 32 = sv_size (tok_text (token lt))"
      by simp
    then show "getRequiredHeaderSmallString mk n h src blk index =
        Returns (mk (if tok_type (token lt) = String
                     then butlast (tl (lexed_span src (token lt)))
                     else lexed_span src (token lt)))"
      using tok view_chars_tok_text [OF it]
      by (simp add: getRequiredHeaderSmallString_def small_string_of_view_def view_chars_def)
  qed
  show ?thesis using num tr fa other str by blast
qed

theorem required_header_coercions_witness:
  "chain pNext ex_heap (pHeader ex_block) [1, 2, 3] \<and> length [1, 2, 3 :: addr] < 4
   \<and> 0 \<le> sint (1 :: 32 word) \<and> sint (1 :: 32 word) < int (length [1, 2, 3 :: addr])
   \<and> ex_heap ([1, 2, 3] ! unat (1 :: 32 word)) = Some (ex_tokens ! 2)
   \<and> tok_type (token (ex_tokens ! 2)) = String
   \<and> token_in_text ex_src (token (ex_tokens ! 2))
   \<and> span_length (token (ex_tokens ! 2)) < 2 ^ 32
   \<and> pType ex_block = Some 0 \<and> ex_heap 0 = Some (ex_tokens ! 0)
   \<and> getRequiredHeaderNumber 4 ex_heap ex_block 0 = Returns 1
   \<and> getRequiredHeaderNumber 4 ex_heap ex_block 2 = Returns 1
   \<and> getRequiredHeaderNumber 4 ex_heap ex_block 1 = FatalError 1 4 invalid_header_msg
   \<and> getRequiredHeaderSmallString (\<lambda>cs. cs) 4 ex_heap ex_src ex_block 1 = Returns ''E1M1''"
proof -
  have len: "length [1, 2, 3 :: addr] < 4" by simp
  have i0: "0 \<le> sint (0 :: 32 word)" "sint (0 :: 32 word) < int (length [1, 2, 3 :: addr])"
    and i1: "0 \<le> sint (1 :: 32 word)" "sint (1 :: 32 word) < int (length [1, 2, 3 :: addr])"
    and i2: "0 \<le> sint (2 :: 32 word)" "sint (2 :: 32 word) < int (length [1, 2, 3 :: addr])"
    by simp_all
  have h0: "ex_heap ([1, 2, 3] ! unat (0 :: 32 word)) = Some (ex_tokens ! 1)"
    and h1: "ex_heap ([1, 2, 3] ! unat (1 :: 32 word)) = Some (ex_tokens ! 2)"
    and h2: "ex_heap ([1, 2, 3] ! unat (2 :: 32 word)) = Some (ex_tokens ! 3)"
    by (simp_all add: ex_heap_def heap_of_def ex_tokens_def)
  have ty: "pType ex_block = Some 0" by (simp add: ex_block_def)
  have kinds: "tok_type (token (ex_tokens ! 1)) = Number" "tok_number (token (ex_tokens ! 1)) = 1"
    "tok_type (token (ex_tokens ! 2)) = String" "tok_type (token (ex_tokens ! 3)) = True_tok"
    by (simp_all add: ex_tokens_def ex_tok_def)
  have intext: "token_in_text ex_src (token (ex_tokens ! 2))"
    "span_length (token (ex_tokens ! 2)) < 2 ^ 32"
    "lexed_span ex_src (token (ex_tokens ! 2)) = [CHR 0x22] @ ''E1M1'' @ [CHR 0x22]"
    by (simp_all add: token_in_text_def lexed_span_def span_length_def ex_tokens_def ex_tok_def
        ex_src_def)
  have loc: "line (tok_end (token (ex_tokens ! 0))) + 1 = 1"
    "column (tok_end (token (ex_tokens ! 0))) + 1 = 4"
    by (simp_all add: ex_tokens_def ex_tok_def)
  show ?thesis
    using required_header_coercions [OF ex_header_chain len i0 h0]
      required_header_coercions [OF ex_header_chain len i2 h2]
      required_header_coercions [OF ex_header_chain len i1 h1,
        where ty = 0 and tlt = "ex_tokens ! 0" and src = ex_src and mk = "\<lambda>cs. cs"]
      ex_header_chain ty ex_heap_simps(1) h1 kinds intext loc
    by simp
qed

subsection \<open>Single value accessors\<close>

text \<open>
  C1, as the code has it. The single value accessors never raise the fatal error,
  whatever the block, the name and the default. When the named value is present in the
  value chain and its first data token is neither a Number nor a boolean literal,
  \<open>getSingleNumberValue\<close> returns the caller's default, and \<open>getSingleIntValue\<close> returns
  the default converted to \<open>float\<close> and back to \<open>int32_t\<close>, which is the default itself
  when its magnitude is at most \<open>2^24\<close>.
\<close>

theorem single_value_accessors_never_fatal:
  "getSingleNumberValue n h src blk name d \<noteq> FatalError l c msg
   \<and> getSingleIntValue n h src blk name di \<noteq> FatalError l c msg
   \<and> getSingleSmallStringValue mk n h src blk name ds \<noteq> FatalError l c msg
   \<and> (chain pNext h (pValues blk) vs \<and> length vs < n \<and> names_readable src h vs
        \<and> NUL \<notin> set name \<and> find (name_matches src h name) vs = Some a
        \<and> h a = Some lt \<and> pNextData lt = Some da \<and> h da = Some dt
        \<and> tok_type (token dt) \<notin> {Number, True_tok, False_tok} \<longrightarrow>
      getSingleNumberValue n h src blk name d = Returns d
      \<and> getSingleIntValue n h src blk name di = int32_of_float (float_of_int32 di)
      \<and> (\<bar>sint di\<bar> \<le> 2 ^ 24 \<longrightarrow> getSingleIntValue n h src blk name di = Returns di))"
proof -
  have present: "chain pNext h (pValues blk) vs \<and> length vs < n \<and> names_readable src h vs
        \<and> NUL \<notin> set name \<and> find (name_matches src h name) vs = Some a
        \<and> h a = Some lt \<and> pNextData lt = Some da \<and> h da = Some dt
        \<and> tok_type (token dt) \<notin> {Number, True_tok, False_tok} \<longrightarrow>
      getSingleNumberValue n h src blk name d = Returns d
      \<and> getSingleIntValue n h src blk name di = int32_of_float (float_of_int32 di)
      \<and> (\<bar>sint di\<bar> \<le> 2 ^ 24 \<longrightarrow> getSingleIntValue n h src blk name di = Returns di)"
  proof (intro impI, elim conjE)
    assume ch: "chain pNext h (pValues blk) vs" "length vs < n" "names_readable src h vs"
      "NUL \<notin> set name"
      and found: "find (name_matches src h name) vs = Some a"
      and live: "h a = Some lt" "pNextData lt = Some da" "h da = Some dt"
      and kind: "tok_type (token dt) \<notin> {Number, True_tok, False_tok}"
    have gv: "getValue n h src blk name = Returns (Some a)"
      using getValue_chain [OF ch] found by simp
    have num: "getSingleNumberValue n h src blk name x = Returns x" for x
      using getSingleNumberValue_data [OF gv live, of x] kind by simp
    have int: "getSingleIntValue n h src blk name di = int32_of_float (float_of_int32 di)"
      by (simp add: getSingleIntValue_def num)
    show "getSingleNumberValue n h src blk name d = Returns d
      \<and> getSingleIntValue n h src blk name di = int32_of_float (float_of_int32 di)
      \<and> (\<bar>sint di\<bar> \<le> 2 ^ 24 \<longrightarrow> getSingleIntValue n h src blk name di = Returns di)"
      using num int int32_float_round_trip [of di] by simp
  qed
  show ?thesis
    by (intro conjI getSingleNumberValue_no_fatal getSingleIntValue_no_fatal
        getSingleSmallStringValue_no_fatal present)
qed

theorem single_value_accessors_never_fatal_witness:
  "chain pNext ex_heap (pValues ex_block) [4, 6, 7, 11] \<and> length [4, 6, 7, 11 :: addr] < 5
   \<and> names_readable ex_src ex_heap [4, 6, 7, 11] \<and> NUL \<notin> set ''SKY''
   \<and> find (name_matches ex_src ex_heap ''SKY'') [4, 6, 7, 11] = Some 11
   \<and> ex_heap 11 = Some (ex_tokens ! 11) \<and> pNextData (ex_tokens ! 11) = Some 12
   \<and> ex_heap 12 = Some (ex_tokens ! 12)
   \<and> tok_type (token (ex_tokens ! 12)) \<notin> {Number, True_tok, False_tok}
   \<and> \<bar>sint (7 :: 32 word)\<bar> \<le> 2 ^ 24
   \<and> getSingleNumberValue 5 ex_heap ex_src ex_block ''SKY'' 7 = Returns 7
   \<and> getSingleIntValue 5 ex_heap ex_src ex_block ''SKY'' 7 = Returns 7"
proof -
  have len: "length [4, 6, 7, 11 :: addr] < 5" by simp
  have kind: "tok_type (token (ex_tokens ! 12)) \<notin> {Number, True_tok, False_tok}"
    by (simp add: ex_links)
  have small: "\<bar>sint (7 :: 32 word)\<bar> \<le> 2 ^ 24" by simp
  show ?thesis
    using single_value_accessors_never_fatal
            [where n = 5 and h = ex_heap and src = ex_src and blk = ex_block
               and name = "''SKY''" and d = 7 and di = 7 and l = 0 and c = 0 and msg = "[]"
               and mk = "\<lambda>cs. cs" and ds = "[]" and vs = "[4, 6, 7, 11]" and a = 11
               and lt = "ex_tokens ! 11" and da = 12 and dt = "ex_tokens ! 12"]
      ex_value_chain len ex_names_readable ex_names_NUL(1) ex_find_Sky
      ex_heap_simps(12) ex_links(1) ex_heap_simps(13) kind small
    by (auto simp del: chain.simps find.simps)
qed

text \<open>
  The claim as the specification states it fails for \<open>getSingleIntValue\<close>: in the example
  block the value \<open>Sky\<close> is present, its first data token is the String \<open>"SKY2"\<close>, and with
  the default 16777217 the accessor returns 16777216.
\<close>

theorem getSingleIntValue_incompatible_kind_counterexample:
  "find (name_matches ex_src ex_heap ''SKY'') [4, 6, 7, 11] = Some 11
   \<and> pNextData (ex_tokens ! 11) = Some 12
   \<and> tok_type (token (ex_tokens ! 12)) = String
   \<and> getSingleIntValue 5 ex_heap ex_src ex_block ''SKY'' 16777217 = Returns 16777216
   \<and> (16777216 :: 32 word) \<noteq> 16777217"
proof -
  have kind: "tok_type (token (ex_tokens ! 12)) = String" by (simp add: ex_links)
  have "getSingleNumberValue 5 ex_heap ex_src ex_block ''SKY'' x = Returns x" for x
    using getSingleNumberValue_data
            [OF ex_getValue(1) ex_heap_simps(12) ex_links(1) ex_heap_simps(13), of x] kind
    by simp
  then have "getSingleIntValue 5 ex_heap ex_src ex_block ''SKY'' 16777217 = Returns 16777216"
    by (simp add: getSingleIntValue_def int32_float_16777217)
  then show ?thesis using ex_find_Sky ex_links(1) kind by simp
qed

text \<open>
  C3, as the code has it. For a block with an acyclic value chain of readable names: if
  the named value is present with an empty data chain (a bare flag), \<open>getSingleNumberValue\<close>
  returns 1 and \<open>getSingleSmallStringValue\<close> returns the caller's default. If the name is
  absent from the value chain, \<open>getSingleNumberValue\<close> and \<open>getSingleSmallStringValue\<close>
  return exactly the caller's default, and \<open>getSingleIntValue\<close> returns the default
  converted to \<open>float\<close> and back to \<open>int32_t\<close>, which is exactly the default when its
  magnitude is at most \<open>2^24\<close>.
\<close>

theorem flag_and_absent_values:
  assumes "chain pNext h (pValues blk) vs" and "length vs < n"
    and "names_readable src h vs" and "NUL \<notin> set name"
  shows "(find (name_matches src h name) vs = Some a \<and> h a = Some lt \<and> pNextData lt = None \<longrightarrow>
            getSingleNumberValue n h src blk name d = Returns 1
            \<and> getSingleSmallStringValue mk n h src blk name ds = Returns ds)
       \<and> (find (name_matches src h name) vs = None \<longrightarrow>
            getSingleNumberValue n h src blk name d = Returns d
            \<and> getSingleSmallStringValue mk n h src blk name ds = Returns ds
            \<and> getSingleIntValue n h src blk name di = int32_of_float (float_of_int32 di)
            \<and> (\<bar>sint di\<bar> \<le> 2 ^ 24 \<longrightarrow> getSingleIntValue n h src blk name di = Returns di))"
proof -
  note gv = getValue_chain [OF assms]
  have flag: "getSingleNumberValue n h src blk name d = Returns 1
      \<and> getSingleSmallStringValue mk n h src blk name ds = Returns ds"
    if "find (name_matches src h name) vs = Some a" "h a = Some lt" "pNextData lt = None"
  proof -
    have found: "getValue n h src blk name = Returns (Some a)" using gv that(1) by simp
    show ?thesis
      using getSingleNumberValue_flag [OF found that(2,3), of d]
        getSingleSmallStringValue_flag [OF found that(2,3), of mk ds]
      by simp
  qed
  have absent: "getSingleNumberValue n h src blk name d = Returns d
      \<and> getSingleSmallStringValue mk n h src blk name ds = Returns ds
      \<and> getSingleIntValue n h src blk name di = int32_of_float (float_of_int32 di)
      \<and> (\<bar>sint di\<bar> \<le> 2 ^ 24 \<longrightarrow> getSingleIntValue n h src blk name di = Returns di)"
    if "find (name_matches src h name) vs = None"
  proof -
    have none: "getValue n h src blk name = Returns None" using gv that by simp
    have int: "getSingleIntValue n h src blk name di = int32_of_float (float_of_int32 di)"
      by (simp add: getSingleIntValue_def getSingleNumberValue_absent [OF none])
    show ?thesis
      using getSingleNumberValue_absent [OF none] getSingleSmallStringValue_absent [OF none]
        int int32_float_round_trip [of di]
      by simp
  qed
  show ?thesis using flag absent by blast
qed

theorem flag_and_absent_values_witness:
  "chain pNext ex_heap (pValues ex_block) [4, 6, 7, 11] \<and> length [4, 6, 7, 11 :: addr] < 5
   \<and> names_readable ex_src ex_heap [4, 6, 7, 11]
   \<and> NUL \<notin> set ''nointermission'' \<and> NUL \<notin> set ''Par''
   \<and> find (name_matches ex_src ex_heap ''nointermission'') [4, 6, 7, 11] = Some 6
   \<and> ex_heap 6 = Some (ex_tokens ! 6) \<and> pNextData (ex_tokens ! 6) = None
   \<and> find (name_matches ex_src ex_heap ''Par'') [4, 6, 7, 11] = None
   \<and> \<bar>sint (- 1 :: 32 word)\<bar> \<le> 2 ^ 24
   \<and> getSingleNumberValue 5 ex_heap ex_src ex_block ''nointermission'' 0 = Returns 1
   \<and> getSingleSmallStringValue (\<lambda>cs. cs) 5 ex_heap ex_src ex_block ''nointermission'' ''D''
       = Returns ''D''
   \<and> getSingleNumberValue 5 ex_heap ex_src ex_block ''Par'' 2 = Returns 2
   \<and> getSingleSmallStringValue (\<lambda>cs. cs) 5 ex_heap ex_src ex_block ''Par'' ''D'' = Returns ''D''
   \<and> getSingleIntValue 5 ex_heap ex_src ex_block ''Par'' (- 1) = Returns (- 1)"
proof -
  have len: "length [4, 6, 7, 11 :: addr] < 5" by simp
  have small: "\<bar>sint (- 1 :: 32 word)\<bar> \<le> 2 ^ 24" by simp
  show ?thesis
    using flag_and_absent_values
            [OF ex_value_chain len ex_names_readable ex_names_NUL(2),
              of 6 "ex_tokens ! 6" 0 "\<lambda>cs. cs" "''D''" 0]
      flag_and_absent_values
            [OF ex_value_chain len ex_names_readable ex_names_NUL(5),
              of 0 "ex_tokens ! 0" 2 "\<lambda>cs. cs" "''D''" "- 1"]
      ex_value_chain len ex_names_readable ex_names_NUL(2,5) ex_find_NoIntermission
      ex_heap_simps(7) ex_links(2) ex_find_Par small
    by (auto simp del: chain.simps find.simps)
qed

text \<open>
  The claim as the specification states it fails for \<open>getSingleIntValue\<close>: the name \<open>Par\<close>
  is absent from the example block, and with the default 16777217 the accessor returns
  16777216.
\<close>

theorem getSingleIntValue_absent_counterexample:
  "find (name_matches ex_src ex_heap ''Par'') [4, 6, 7, 11] = None
   \<and> getValue 5 ex_heap ex_src ex_block ''Par'' = Returns None
   \<and> getSingleIntValue 5 ex_heap ex_src ex_block ''Par'' 16777217 = Returns 16777216
   \<and> (16777216 :: 32 word) \<noteq> 16777217"
proof -
  have "getSingleIntValue 5 ex_heap ex_src ex_block ''Par'' 16777217 = Returns 16777216"
    by (simp add: getSingleIntValue_def getSingleNumberValue_absent [OF ex_getValue(5)]
        int32_float_16777217)
  then show ?thesis using ex_find_Par ex_getValue(5) by simp
qed

text \<open>
  C7. Let the named value be present in the value chain at \<open>a\<close>, with a data chain
  \<open>d # ds\<close> whose first entry holds the linked token \<open>dt\<close>. Each single value accessor
  returns a result computed from \<open>dt\<close> alone: the number accessor the coercion of \<open>dt\<close>
  (its stored number, 1 for \<open>true\<close>, 0 for \<open>false\<close>, the default for any other kind), the
  integer accessor that number converted to \<open>int32_t\<close>, the short string accessor the
  small string built from the text of \<open>dt\<close>. None of these depends on the further
  entries \<open>ds\<close>, and each accessor returns the same in the store where the data chain is
  cut after \<open>d\<close>, that is, where the data chain holds its first entry only.
\<close>

theorem single_value_accessors_use_first_data_token:
  assumes "chain pNext h (pValues blk) vs" and "length vs < n"
    and "names_readable src h vs" and "NUL \<notin> set name"
    and "find (name_matches src h name) vs = Some a" and "h a = Some lt"
    and "chain pNextData h (pNextData lt) (d # ds)" and "h d = Some dt"
  shows "getSingleNumberValue n h src blk name x =
           Returns (if tok_type (token dt) = Number then tok_number (token dt)
                    else if tok_type (token dt) = True_tok then 1
                    else if tok_type (token dt) = False_tok then 0
                    else x)
       \<and> getSingleIntValue n h src blk name xi =
           int32_of_float (if tok_type (token dt) = Number then tok_number (token dt)
                           else if tok_type (token dt) = True_tok then 1
                           else if tok_type (token dt) = False_tok then 0
                           else float_of_int32 xi)
       \<and> (tok_type (token dt) = True_tok \<longrightarrow> getSingleIntValue n h src blk name xi = Returns 1)
       \<and> (tok_type (token dt) = False_tok \<longrightarrow> getSingleIntValue n h src blk name xi = Returns 0)
       \<and> getSingleSmallStringValue mk n h src blk name xs =
           small_string_of_view mk src (tok_text (token dt))
       \<and> (token_in_text src (token dt) \<and> span_length (token dt) < 2 ^ 32 \<longrightarrow>
            getSingleSmallStringValue mk n h src blk name xs =
              Returns (mk (if tok_type (token dt) = String
                           then butlast (tl (lexed_span src (token dt)))
                           else lexed_span src (token dt))))
       \<and> chain pNextData (cut_data_chain h d) (pNextData lt) [d]
       \<and> getSingleNumberValue n (cut_data_chain h d) src blk name x
           = getSingleNumberValue n h src blk name x
       \<and> getSingleIntValue n (cut_data_chain h d) src blk name xi
           = getSingleIntValue n h src blk name xi
       \<and> getSingleSmallStringValue mk n (cut_data_chain h d) src blk name xs
           = getSingleSmallStringValue mk n h src blk name xs"
proof -
  have gv: "getValue n h src blk name = Returns (Some a)"
    using getValue_chain [OF assms(1-4)] assms(5) by simp
  have nd: "pNextData lt = Some d" using assms(7) by simp
  note num = getSingleNumberValue_data [OF gv assms(6) nd assms(8)]
  note str = getSingleSmallStringValue_data [OF gv assms(6) nd assms(8), of mk xs]
  have int: "getSingleIntValue n h src blk name xi =
      int32_of_float (if tok_type (token dt) = Number then tok_number (token dt)
                      else if tok_type (token dt) = True_tok then 1
                      else if tok_type (token dt) = False_tok then 0
                      else float_of_int32 xi)"
    by (simp add: getSingleIntValue_def num)
  have int_true: "tok_type (token dt) = True_tok \<longrightarrow>
      getSingleIntValue n h src blk name xi = Returns 1"
    and int_false: "tok_type (token dt) = False_tok \<longrightarrow>
      getSingleIntValue n h src blk name xi = Returns 0"
    using int by (simp_all add: int32_of_float_small_numerals)
  have str_text: "token_in_text src (token dt) \<and> span_length (token dt) < 2 ^ 32 \<longrightarrow>
      getSingleSmallStringValue mk n h src blk name xs =
        Returns (mk (if tok_type (token dt) = String
                     then butlast (tl (lexed_span src (token dt)))
                     else lexed_span src (token dt)))"
    using str small_string_of_view_in_text [of src "token dt" mk] by simp
  have ad: "a \<noteq> d" using assms(6,7) by (rule first_data_token_not_owner)
  let ?h = "cut_data_chain h d"
  have cut_d: "?h d = Some (dt\<lparr>pNextData := None\<rparr>)" and cut_a: "?h a = Some lt"
    using assms(6,8) ad by (simp_all add: cut_data_chain_def)
  have gv': "getValue n ?h src blk name = Returns (Some a)"
    using gv by (simp add: getValue_cut_data_chain)
  have one: "chain pNextData ?h (pNextData lt) [d]"
    using nd cut_d by simp
  have num': "getSingleNumberValue n ?h src blk name y = getSingleNumberValue n h src blk name y"
    for y
    using getSingleNumberValue_data [OF gv' cut_a nd cut_d, of y] num [of y] by simp
  have int': "getSingleIntValue n ?h src blk name xi = getSingleIntValue n h src blk name xi"
    by (simp add: getSingleIntValue_def num')
  have str': "getSingleSmallStringValue mk n ?h src blk name xs
      = getSingleSmallStringValue mk n h src blk name xs"
    using getSingleSmallStringValue_data [OF gv' cut_a nd cut_d, of mk xs] str by simp
  show ?thesis
    using num [of x] int int_true int_false str str_text one num' [of x] int' str'
    by (intro conjI)
qed

theorem single_value_accessors_use_first_data_token_witness:
  "chain pNext ex_heap (pValues ex_block) [4, 6, 7, 11] \<and> length [4, 6, 7, 11 :: addr] < 5
   \<and> names_readable ex_src ex_heap [4, 6, 7, 11] \<and> NUL \<notin> set ''SpecialAction''
   \<and> find (name_matches ex_src ex_heap ''SpecialAction'') [4, 6, 7, 11] = Some 7
   \<and> ex_heap 7 = Some (ex_tokens ! 7)
   \<and> chain pNextData ex_heap (pNextData (ex_tokens ! 7)) (8 # [9, 10])
   \<and> ex_heap 8 = Some (ex_tokens ! 8)
   \<and> token_in_text ex_src (token (ex_tokens ! 8)) \<and> span_length (token (ex_tokens ! 8)) < 2 ^ 32
   \<and> getSingleNumberValue 5 ex_heap ex_src ex_block ''SpecialAction'' 0 = Returns 3
   \<and> getSingleIntValue 5 ex_heap ex_src ex_block ''SpecialAction'' 0 = Returns 3
   \<and> getSingleSmallStringValue (\<lambda>cs. cs) 5 ex_heap ex_src ex_block ''SpecialAction'' ''D''
       = Returns ''3''
   \<and> chain pNextData (cut_data_chain ex_heap 8) (pNextData (ex_tokens ! 7)) [8]
   \<and> getSingleNumberValue 5 (cut_data_chain ex_heap 8) ex_src ex_block ''SpecialAction'' 0
       = Returns 3"
proof -
  have len: "length [4, 6, 7, 11 :: addr] < 5" by simp
  have ch: "chain pNextData ex_heap (pNextData (ex_tokens ! 7)) (8 # [9, 10])"
    using ex_data_chain by simp
  have intext: "token_in_text ex_src (token (ex_tokens ! 8))"
    "span_length (token (ex_tokens ! 8)) < 2 ^ 32"
    "lexed_span ex_src (token (ex_tokens ! 8)) = ''3''"
    by (simp_all add: token_in_text_def lexed_span_def span_length_def ex_tokens_def ex_tok_def
        ex_src_def)
  note t = single_value_accessors_use_first_data_token
             [OF ex_value_chain len ex_names_readable ex_names_NUL(3) ex_find_SpecialAction
                 ex_heap_simps(8) ch ex_heap_simps(9),
              where x = 0 and xi = 0 and mk = "\<lambda>cs. cs" and xs = "''D''"]
  have num: "getSingleNumberValue 5 ex_heap ex_src ex_block ''SpecialAction'' 0 = Returns 3"
    using t ex_links(7,8) by simp
  have int: "getSingleIntValue 5 ex_heap ex_src ex_block ''SpecialAction'' 0 = Returns 3"
    using t ex_links(7,8) by (simp add: int32_of_float_small_numerals)
  have str: "getSingleSmallStringValue (\<lambda>cs. cs) 5 ex_heap ex_src ex_block ''SpecialAction''
      ''D'' = Returns ''3''"
    using t intext ex_links(7) by (auto simp del: chain.simps)
  have one: "chain pNextData (cut_data_chain ex_heap 8) (pNextData (ex_tokens ! 7)) [8]"
    using t by (simp del: chain.simps)
  have cut: "getSingleNumberValue 5 (cut_data_chain ex_heap 8) ex_src ex_block
      ''SpecialAction'' 0 = Returns 3"
    using t num by (simp del: chain.simps)
  show ?thesis
    using ex_value_chain len ex_names_readable ex_names_NUL(3) ex_find_SpecialAction
      ex_heap_simps(8) ch ex_heap_simps(9) intext(1,2) num int str one cut
    by (intro conjI)
qed

subsection \<open>Termination of the chain walks\<close>

text \<open>
  C9. When the \<open>pNext\<close> chain (the \<open>pNextData\<close> chain) that an operation walks is acyclic
  and ends in the absent link, the operation terminates: its loop condition is tested at
  most once more than the chain has entries (any bound \<open>n\<close> above the length of the chain
  suffices), the entries of the chain are pairwise distinct, and every entry is visited at
  most once. \<open>numTokensAhead\<close> and \<open>numDataTokensAhead\<close> return the number of entries,
  \<open>getHeaderTokenWithIndex\<close> returns the entry or \<open>nullptr\<close>; \<open>getValue\<close> does not run on,
  and returns the first entry whose name matches when the names are readable.
\<close>

theorem chain_walks_terminate:
  "(chain pNext h (pNext this) as \<and> length as < n \<longrightarrow>
      distinct as \<and> numTokensAhead n h this = Returns (of_nat (length as)))
   \<and> (chain pNextData h (pNextData this) ds \<and> length ds < n \<longrightarrow>
      distinct ds \<and> numDataTokensAhead n h this = Returns (of_nat (length ds)))
   \<and> (chain pNext h (pHeader blk) hs \<and> length hs < n \<longrightarrow>
      distinct hs
      \<and> getHeaderTokenWithIndex n h blk i =
          Returns (if unat i < length hs then Some (hs ! unat i) else None))
   \<and> (chain pNext h (pValues blk) vs \<and> length vs < n \<longrightarrow>
      distinct vs
      \<and> getValue n h src blk name \<noteq> OutOfFuel
      \<and> (names_readable src h vs \<and> NUL \<notin> set name \<longrightarrow>
          getValue n h src blk name = Returns (find (name_matches src h name) vs)))"
proof -
  have a: "distinct as \<and> numTokensAhead n h this = Returns (of_nat (length as))"
    if "chain pNext h (pNext this) as" "length as < n"
    using that chain_distinct [OF that(1)] numTokensAhead_loop_chain [OF that, of 0]
    by (simp add: numTokensAhead_def)
  have b: "distinct ds \<and> numDataTokensAhead n h this = Returns (of_nat (length ds))"
    if "chain pNextData h (pNextData this) ds" "length ds < n"
    using that chain_distinct [OF that(1)] numDataTokensAhead_loop_chain [OF that, of 0]
    by (simp add: numDataTokensAhead_def)
  have c: "distinct hs \<and> getHeaderTokenWithIndex n h blk i =
          Returns (if unat i < length hs then Some (hs ! unat i) else None)"
    if "chain pNext h (pHeader blk) hs" "length hs < n"
    using chain_distinct [OF that(1)] getHeaderTokenWithIndex_chain [OF that, of i]
    by simp
  have d: "distinct vs \<and> getValue n h src blk name \<noteq> OutOfFuel
      \<and> (names_readable src h vs \<and> NUL \<notin> set name \<longrightarrow>
          getValue n h src blk name = Returns (find (name_matches src h name) vs))"
    if "chain pNext h (pValues blk) vs" "length vs < n"
    using chain_distinct [OF that(1)] getValue_loop_chain_terminates [OF that, of src name]
      getValue_chain [OF that, of src name]
    by (auto simp: getValue_def)
  show ?thesis using a b c d by blast
qed

theorem chain_walks_terminate_witness:
  "chain pNext ex_heap (pNext (ex_tokens ! 1)) [2, 3] \<and> length [2, 3 :: addr] < 3
   \<and> numTokensAhead 3 ex_heap (ex_tokens ! 1) = Returns 2
   \<and> chain pNextData ex_heap (pNextData (ex_tokens ! 7)) [8, 9, 10]
   \<and> length [8, 9, 10 :: addr] < 4
   \<and> numDataTokensAhead 4 ex_heap (ex_tokens ! 7) = Returns 3
   \<and> chain pNext ex_heap (pHeader ex_block) [1, 2, 3] \<and> length [1, 2, 3 :: addr] < 4
   \<and> getHeaderTokenWithIndex 4 ex_heap ex_block 2 = Returns (Some 3)
   \<and> chain pNext ex_heap (pValues ex_block) [4, 6, 7, 11] \<and> length [4, 6, 7, 11 :: addr] < 5
   \<and> names_readable ex_src ex_heap [4, 6, 7, 11] \<and> NUL \<notin> set ''SKY''
   \<and> getValue 5 ex_heap ex_src ex_block ''SKY'' = Returns (Some 11)"
proof -
  have c1: "chain pNext ex_heap (pNext (ex_tokens ! 1)) [2, 3]"
    by (simp add: ex_heap_def heap_of_def ex_tokens_def)
  show ?thesis
    using chain_walks_terminate
            [of ex_heap "ex_tokens ! 1" "[2, 3]" 3 "[]" ex_block "[]" 0 "[]" ex_src "[]"]
      chain_walks_terminate
            [of ex_heap "ex_tokens ! 7" "[]" 4 "[8, 9, 10]" ex_block "[1, 2, 3]" 2 "[]" ex_src
                "[]"]
      chain_walks_terminate
            [of ex_heap "ex_tokens ! 7" "[]" 5 "[]" ex_block "[]" 0 "[4, 6, 7, 11]" ex_src
                "''SKY''"]
      c1 ex_data_chain ex_header_chain ex_value_chain ex_names_readable ex_names_NUL(1)
      ex_find_Sky
    by (simp del: chain.simps find.simps)
qed

end
